theory Spec2Isabelle
  imports Main
begin

section \<open>Strings of the source language\<close>

text \<open>
  A source string is modelled as a HOL \<open>string\<close>, one \<open>char\<close> per code unit; the code
  units are those below 256.  \<open>isSpace\<close> is the class of characters that the regular
  expression escape \<^verbatim>\<open>\s\<close>, \<^verbatim>\<open>String.prototype.trim\<close> and the prefix skipped by
  \<^verbatim>\<open>Number.parseInt\<close> share, restricted to that range: tab, line feed, vertical tab, form
  feed, carriage return, space and the no-break space.
\<close>

definition isSpace :: "char \<Rightarrow> bool" where
  "isSpace c = (c \<in> set [CHR 0x09, CHR 0x0A, CHR 0x0B, CHR 0x0C, CHR 0x0D, CHR 0x20, CHR 0xA0])"

text \<open>\<^verbatim>\<open>line.trim()\<close> used as a condition: true when something is left after trimming.\<close>

definition trimTruthy :: "string \<Rightarrow> bool" where
  "trimTruthy s = (\<not> list_all isSpace s)"

text \<open>The value of a character as a digit (base 36 alphabet), as \<^verbatim>\<open>parseInt\<close> reads it.\<close>

definition digitOf :: "char \<Rightarrow> nat option" where
  "digitOf c =
     (let n = (of_char c :: nat) in
      if 48 \<le> n \<and> n \<le> 57 then Some (n - 48)
      else if 97 \<le> n \<and> n \<le> 122 then Some (n - 87)
      else if 65 \<le> n \<and> n \<le> 90 then Some (n - 55)
      else None)"

definition isDigit :: "nat \<Rightarrow> char \<Rightarrow> bool" where
  "isDigit radix c = (case digitOf c of None \<Rightarrow> False | Some d \<Rightarrow> d < radix)"

definition digitValue :: "char \<Rightarrow> nat" where
  "digitValue c = (case digitOf c of None \<Rightarrow> 0 | Some d \<Rightarrow> d)"

text \<open>
  \<^verbatim>\<open>Number.parseInt(s)\<close> with no radix: white space is skipped, a sign is read, the prefix
  \<^verbatim>\<open>0x\<close> or \<^verbatim>\<open>0X\<close> selects base 16, and the longest run of digits is the value.  No digit
  gives \<^verbatim>\<open>NaN\<close>, here \<open>None\<close>.  The source applies it to at most three characters, where
  the value is exact.
\<close>

definition parseInt :: "string \<Rightarrow> int option" where
  "parseInt s =
     (let s1 = dropWhile isSpace s;
          neg = (take 1 s1 = ''-'');
          s2 = (if take 1 s1 = ''-'' \<or> take 1 s1 = ''+'' then drop 1 s1 else s1);
          hex = (take 2 s2 = ''0x'' \<or> take 2 s2 = ''0X'');
          radix = (if hex then 16 else 10);
          s3 = (if hex then drop 2 s2 else s2);
          ds = takeWhile (isDigit radix) s3
      in if ds = [] then None
         else Some ((if neg then - 1 else 1) * int (foldl (\<lambda>a c. a * radix + digitValue c) 0 ds)))"

text \<open>
  \<^verbatim>\<open>s.split("\r\n")\<close>: the pieces between the occurrences of the terminator, scanned from
  the left; the result is never empty and its last element is the text after the last
  terminator.
\<close>

fun splitCRLF :: "string \<Rightarrow> string \<Rightarrow> string list" where
  "splitCRLF acc [] = [acc]"
| "splitCRLF acc [c] = [acc @ [c]]"
| "splitCRLF acc (c # d # cs) =
     (if c = CHR 0x0D \<and> d = CHR 0x0A then acc # splitCRLF [] cs
      else splitCRLF (acc @ [c]) (d # cs))"

text \<open>\<^verbatim>\<open>s.split("@")\<close>.\<close>

fun splitAt :: "string \<Rightarrow> string \<Rightarrow> string list" where
  "splitAt acc [] = [acc]"
| "splitAt acc (c # cs) =
     (if c = CHR ''@'' then acc # splitAt [] cs else splitAt (acc @ [c]) cs)"

text \<open>\<^verbatim>\<open>email.split("@")[1]\<close>: the second piece, \<^verbatim>\<open>undefined\<close> (here \<open>None\<close>) without one.\<close>

definition domainOf :: "string \<Rightarrow> string option" where
  "domainOf addr = (case splitAt [] addr of _ # d # _ \<Rightarrow> Some d | _ \<Rightarrow> None)"

section \<open>Verification outcomes\<close>

datatype status =
    invalid_format | no_mx_record | connection_failed | connection_rejected
  | handshake_failed | mail_from_rejected | valid | invalid | temporary_failure
  | unknown_response | rate_limited | error | batch_error

text \<open>The result object.  A field the source leaves out is \<open>None\<close> (\<open>smtpResponse\<close>)
  or \<open>False\<close> (\<open>fromCache\<close>).\<close>

record outcome =
  email :: string
  isValid :: bool
  status :: status
  message :: string
  smtpResponse :: "string option"
  fromCache :: bool

definition mkOutcome :: "string \<Rightarrow> bool \<Rightarrow> status \<Rightarrow> string \<Rightarrow> string option \<Rightarrow> outcome" where
  "mkOutcome addr v st msg resp =
     \<lparr>email = addr, isValid = v, status = st, message = msg, smtpResponse = resp,
      fromCache = False\<rparr>"

text \<open>The state of a promise as its awaiter sees it.\<close>

datatype 'a promise = Fulfilled 'a | Rejected string | Pending

section \<open>The probe session: \<^verbatim>\<open>verifyWithMxRecord\<close>\<close>

datatype step = connect | ehlo | helo | mail_from | rcpt_to | quit

datatype settlement = Resolve outcome | Reject string

text \<open>
  The closure of one call of \<^verbatim>\<open>verifyWithMxRecord\<close>: the variables \<open>response\<close>,
  \<open>step\<close> and \<open>isResolved\<close>, the socket (its \<open>destroyed\<close> flag and what it was given
  to send), and whether the timer of \<^verbatim>\<open>setTimeout\<close> is still pending.  Three logs record
  calls: \<open>destroyCalls\<close> counts \<^verbatim>\<open>socket.destroy()\<close>, \<open>attempts\<close> lists the calls of
  \<^verbatim>\<open>resolveOnce\<close> and \<^verbatim>\<open>rejectOnce\<close>, \<open>settlements\<close> lists the calls of the promise's own
  \<^verbatim>\<open>resolve\<close> and \<^verbatim>\<open>reject\<close>.
\<close>

record session =
  response :: string
  step :: step
  isResolved :: bool
  destroyed :: bool
  timerArmed :: bool
  written :: "string list"
  destroyCalls :: nat
  attempts :: "settlement list"
  settlements :: "settlement list"

definition newSession :: session where
  "newSession =
     \<lparr>response = [], step = connect, isResolved = False, destroyed = False,
      timerArmed = True, written = [], destroyCalls = 0, attempts = [], settlements = []\<rparr>"

definition cleanup :: "session \<Rightarrow> session" where
  "cleanup s =
     (if \<not> destroyed s then s\<lparr>destroyed := True, destroyCalls := Suc (destroyCalls s)\<rparr>
      else s)"

definition resolveOnce :: "outcome \<Rightarrow> session \<Rightarrow> session" where
  "resolveOnce r s =
     (let s0 = s\<lparr>attempts := attempts s @ [Resolve r]\<rparr> in
      if \<not> isResolved s0
      then (let s1 = cleanup (s0\<lparr>isResolved := True\<rparr>)
            in s1\<lparr>settlements := settlements s1 @ [Resolve r]\<rparr>)
      else s0)"

definition rejectOnce :: "string \<Rightarrow> session \<Rightarrow> session" where
  "rejectOnce e s =
     (let s0 = s\<lparr>attempts := attempts s @ [Reject e]\<rparr> in
      if \<not> isResolved s0
      then (let s1 = cleanup (s0\<lparr>isResolved := True\<rparr>)
            in s1\<lparr>settlements := settlements s1 @ [Reject e]\<rparr>)
      else s0)"

text \<open>
  \<^verbatim>\<open>sendCommand\<close>, that is \<^verbatim>\<open>socket.write(command + "\r\n")\<close>.  A destroyed socket takes no
  data: the write fails and nothing is sent, so \<open>written\<close> lists what went to a live socket.
\<close>

definition sendCommand :: "string \<Rightarrow> session \<Rightarrow> session" where
  "sendCommand command s =
     (if destroyed s then s
      else s\<lparr>written := written s @ [command @ [CHR 0x0D, CHR 0x0A]]\<rparr>)"

definition getLocalHostname :: string where
  "getLocalHostname = ''localhost''"

definition replyCode :: "string \<Rightarrow> int option" where
  "replyCode line = parseInt (take 3 line)"

text \<open>
  \<^verbatim>\<open>handleSmtpResponse(socket, line, email, step, resolve)\<close>, called with \<^verbatim>\<open>resolveOnce\<close>
  as \<open>resolve\<close>; \<open>sender\<close> is \<^verbatim>\<open>this.fromEmail\<close>.  In step \<open>quit\<close> no case of the
  \<^verbatim>\<open>switch\<close> applies.
\<close>

definition handleSmtpResponse :: "string \<Rightarrow> string \<Rightarrow> string \<Rightarrow> step \<Rightarrow> session \<Rightarrow> session" where
  "handleSmtpResponse sender line addr stp s =
     (let code = replyCode line in
      case stp of
        connect \<Rightarrow>
          if code = Some 220 then sendCommand (''EHLO '' @ getLocalHostname) s
          else resolveOnce (mkOutcome addr False connection_rejected
                 (''Connection rejected: '' @ line) (Some line)) s
      | ehlo \<Rightarrow>
          if code = Some 250 then sendCommand (''MAIL FROM:<'' @ sender @ ''>'') s
          else sendCommand (''HELO '' @ getLocalHostname) s
      | helo \<Rightarrow>
          if code = Some 250 then sendCommand (''MAIL FROM:<'' @ sender @ ''>'') s
          else resolveOnce (mkOutcome addr False handshake_failed
                 (''Handshake failed: '' @ line) (Some line)) s
      | mail_from \<Rightarrow>
          if code = Some 250 then sendCommand (''RCPT TO:<'' @ addr @ ''>'') s
          else resolveOnce (mkOutcome addr False mail_from_rejected
                 (''MAIL FROM rejected: '' @ line) (Some line)) s
      | rcpt_to \<Rightarrow>
          (let s1 = sendCommand ''QUIT'' s in
           if code = Some 250
           then resolveOnce (mkOutcome addr True valid ''Email address is valid'' (Some line)) s1
           else if (case code of None \<Rightarrow> False | Some c \<Rightarrow> 500 \<le> c \<and> c \<le> 599)
           then resolveOnce (mkOutcome addr False invalid
                  (''Email address rejected: '' @ line) (Some line)) s1
           else if (case code of None \<Rightarrow> False | Some c \<Rightarrow> 400 \<le> c \<and> c \<le> 499)
           then resolveOnce (mkOutcome addr False temporary_failure
                  (''Temporary failure: '' @ line) (Some line)) s1
           else resolveOnce (mkOutcome addr False unknown_response
                  (''Unknown response: '' @ line) (Some line)) s1)
      | quit \<Rightarrow> s)"

definition getNextStep :: "step \<Rightarrow> string \<Rightarrow> step" where
  "getNextStep currentStep resp =
     (let code = replyCode resp in
      case currentStep of
        connect \<Rightarrow> ehlo
      | ehlo \<Rightarrow> (if code = Some 250 then mail_from else helo)
      | helo \<Rightarrow> mail_from
      | mail_from \<Rightarrow> rcpt_to
      | rcpt_to \<Rightarrow> quit
      | quit \<Rightarrow> quit)"

text \<open>The body of the loop over the complete lines of one read.\<close>

definition processLine :: "string \<Rightarrow> string \<Rightarrow> session \<Rightarrow> string \<Rightarrow> session" where
  "processLine sender addr s line =
     (if trimTruthy line
      then (let s1 = handleSmtpResponse sender line addr (step s) s
            in s1\<lparr>step := getNextStep (step s) line\<rparr>)
      else s)"

text \<open>The handler of \<^verbatim>\<open>data\<close>: the text read is appended to the buffer, the buffer is split,
  its last piece is kept and the others are processed in order.\<close>

definition onData :: "string \<Rightarrow> string \<Rightarrow> string \<Rightarrow> session \<Rightarrow> session" where
  "onData sender addr chunk s =
     (let pieces = splitCRLF [] (response s @ chunk)
      in foldl (processLine sender addr) (s\<lparr>response := last pieces\<rparr>) (butlast pieces))"

text \<open>
  What the runtime delivers to the session.  \<open>EvTimer\<close> is the expiry of the timer set
  with \<^verbatim>\<open>setTimeout\<close>, \<open>EvSocketTimeout\<close> the socket's \<^verbatim>\<open>timeout\<close> event.  The
  runtime emits \<^verbatim>\<open>error\<close> and \<^verbatim>\<open>close\<close> from its own destruction of the socket, so the
  flag \<open>destroyed\<close> is already set when their handlers run.
\<close>

datatype socket_event =
    EvConnect | EvData string | EvError string | EvSocketTimeout | EvClose | EvEnd | EvTimer

definition onEvent :: "string \<Rightarrow> string \<Rightarrow> session \<Rightarrow> socket_event \<Rightarrow> session" where
  "onEvent sender addr s ev =
     (case ev of
        EvConnect \<Rightarrow> s
      | EvData chunk \<Rightarrow> onData sender addr chunk s
      | EvError msg \<Rightarrow> rejectOnce msg (s\<lparr>destroyed := True\<rparr>)
      | EvSocketTimeout \<Rightarrow> rejectOnce ''Socket timeout'' s
      | EvClose \<Rightarrow>
          (let s1 = s\<lparr>destroyed := True\<rparr> in
           if \<not> isResolved s1 then rejectOnce ''Connection closed unexpectedly'' s1 else s1)
      | EvEnd \<Rightarrow> s\<lparr>timerArmed := False\<rparr>
      | EvTimer \<Rightarrow>
          (if timerArmed s then rejectOnce ''Connection timeout'' (s\<lparr>timerArmed := False\<rparr>)
           else s))"

definition runSession :: "string \<Rightarrow> string \<Rightarrow> socket_event list \<Rightarrow> session" where
  "runSession sender addr evs = foldl (onEvent sender addr) newSession evs"

text \<open>The promise returned by \<^verbatim>\<open>verifyWithMxRecord\<close>, as settled by the first call of its
  \<^verbatim>\<open>resolve\<close> or \<^verbatim>\<open>reject\<close>.\<close>

definition promiseOf :: "session \<Rightarrow> outcome promise" where
  "promiseOf s =
     (case settlements s of
        [] \<Rightarrow> Pending
      | Resolve r # _ \<Rightarrow> Fulfilled r
      | Reject e # _ \<Rightarrow> Rejected e)"

section \<open>The orchestrator: \<^verbatim>\<open>verifyEmail\<close>\<close>

text \<open>
  The pattern of \<^verbatim>\<open>isValidEmailFormat\<close> is a sequence of items, each a literal character or
  \<^verbatim>\<open>[^...]+\<close>, one or more characters outside a class.  \<open>rxTest\<close> is \<^verbatim>\<open>RegExp.test\<close>
  for such a sequence anchored at both ends: it tries every way of dividing the string
  among the items.
\<close>

datatype rx_item = RxChar char | RxPlusNot "char \<Rightarrow> bool"

fun rxTest :: "rx_item list \<Rightarrow> string \<Rightarrow> bool" where
  "rxTest [] s = (s = [])"
| "rxTest (i # r) [] = False"
| "rxTest (RxChar c # r) (x # xs) = (x = c \<and> rxTest r xs)"
| "rxTest (RxPlusNot cls # r) (x # xs) =
     (\<not> cls x \<and> (rxTest (RxPlusNot cls # r) xs \<or> rxTest r xs))"

definition spaceOrAt :: "char \<Rightarrow> bool" where
  "spaceOrAt c = (isSpace c \<or> c = CHR ''@'')"

definition emailRegex :: "rx_item list" where
  "emailRegex =
     [RxPlusNot spaceOrAt, RxChar (CHR ''@''), RxPlusNot spaceOrAt, RxChar (CHR ''.''),
      RxPlusNot spaceOrAt]"

definition isValidEmailFormat :: "string \<Rightarrow> bool" where
  "isValidEmailFormat addr = rxTest emailRegex addr"

record mx_record =
  exchange :: string
  priority :: int

text \<open>
  The runtime the program runs on, over a state \<open>'w\<close> of the outside world: the clock
  read by \<^verbatim>\<open>Date.now()\<close>, the passing of a \<^verbatim>\<open>setTimeout\<close> delay, the answer of
  \<^verbatim>\<open>dns.resolveMx\<close> (\<open>Inl\<close> when the lookup fails), and the events that a connection to
  port 25 of a host delivers to its socket.
\<close>

record 'w runtime =
  now :: "'w \<Rightarrow> int"
  sleep :: "int \<Rightarrow> 'w \<Rightarrow> 'w"
  resolveMx :: "string \<Rightarrow> 'w \<Rightarrow> (string + mx_record list) \<times> 'w"
  socketEvents :: "string \<Rightarrow> 'w \<Rightarrow> socket_event list \<times> 'w"

datatype access = DnsLookup string | Connect string

record cache_entry =
  result :: outcome
  timestamp :: int

text \<open>
  The verifier object and its surroundings: the world, the log of lookups and connections
  made, the log of the delays waited for, and the two maps of \<^verbatim>\<open>AdvancedEmailVerifier\<close>.
  The key of \<open>rateLimiter\<close> is what \<^verbatim>\<open>email.split("@")[1]\<close> gives, which may be
  \<^verbatim>\<open>undefined\<close>.
\<close>

record 'w verifier =
  world :: 'w
  accesses :: "access list"
  timers :: "int list"
  cache :: "string \<Rightarrow> cache_entry option"
  rateLimiter :: "string option \<Rightarrow> int list option"

text \<open>
  The fields of the processor and of its verifier that the methods above and below read, as
  the constructors have set them.  The two sizes and the retry budget are natural numbers.
\<close>

record config =
  fromEmail :: string
  cacheExpiry :: int
  maxRequestsPerDomain :: int
  rateLimitWindow :: int
  batchSize :: nat
  concurrency :: nat
  delay :: int
  retryAttempts :: nat

type_synonym ('w, 'a) task = "'w verifier \<Rightarrow> 'a promise \<times> 'w verifier"

text \<open>\<^verbatim>\<open>await new Promise((resolve) => setTimeout(resolve, ms))\<close>.\<close>

definition wait :: "'w runtime \<Rightarrow> int \<Rightarrow> 'w verifier \<Rightarrow> 'w verifier" where
  "wait rt ms s = s\<lparr>world := sleep rt ms (world s), timers := timers s @ [ms]\<rparr>"

text \<open>
  \<^verbatim>\<open>getMxRecords\<close>: \<^verbatim>\<open>null\<close> (here \<open>None\<close>) when the lookup fails, the records in
  ascending priority otherwise; the sort of the source is stable, as \<open>sort_key\<close> is.  With
  an undefined domain the resolver throws before any lookup, which the same handler
  catches.
\<close>

definition getMxRecords ::
  "'w runtime \<Rightarrow> string option \<Rightarrow> 'w verifier \<Rightarrow> mx_record list option \<times> 'w verifier" where
  "getMxRecords rt domain s =
     (case domain of
        None \<Rightarrow> (None, s)
      | Some d \<Rightarrow>
          (case resolveMx rt d (world s) of
             (answer, w) \<Rightarrow>
               (let s1 = s\<lparr>world := w, accesses := accesses s @ [DnsLookup d]\<rparr> in
                case answer of
                  Inl err \<Rightarrow> (None, s1)
                | Inr records \<Rightarrow> (Some (sort_key priority records), s1))))"

definition verifyWithMxRecord ::
  "'w runtime \<Rightarrow> config \<Rightarrow> string \<Rightarrow> string \<Rightarrow> ('w, outcome) task" where
  "verifyWithMxRecord rt cfg addr mxHost s =
     (case socketEvents rt mxHost (world s) of
        (evs, w) \<Rightarrow>
          (promiseOf (runSession (fromEmail cfg) addr evs),
           s\<lparr>world := w, accesses := accesses s @ [Connect mxHost]\<rparr>))"

text \<open>The loop of \<^verbatim>\<open>verifyEmail\<close> over the records, with the result that follows it.  A
  probe that never settles leaves the caller waiting.\<close>

fun tryMxRecords ::
  "'w runtime \<Rightarrow> config \<Rightarrow> string \<Rightarrow> mx_record list \<Rightarrow> ('w, outcome) task" where
  "tryMxRecords rt cfg addr [] s =
     (Fulfilled (mkOutcome addr False connection_failed
        ''Could not connect to any mail server'' None), s)"
| "tryMxRecords rt cfg addr (mx # rest) s =
     (case verifyWithMxRecord rt cfg addr (exchange mx) s of
        (Fulfilled r, s1) \<Rightarrow>
          if status r \<noteq> connection_failed then (Fulfilled r, s1)
          else tryMxRecords rt cfg addr rest s1
      | (Rejected e, s1) \<Rightarrow> tryMxRecords rt cfg addr rest s1
      | (Pending, s1) \<Rightarrow> (Pending, s1))"

text \<open>
  \<^verbatim>\<open>verifyEmail\<close>.  Its outer handler turns an exception into the status \<open>error\<close>; on a
  string no statement of the body throws, so the model has no such branch.
\<close>

definition verifyEmail :: "'w runtime \<Rightarrow> config \<Rightarrow> string \<Rightarrow> ('w, outcome) task" where
  "verifyEmail rt cfg addr s =
     (if \<not> isValidEmailFormat addr
      then (Fulfilled (mkOutcome addr False invalid_format ''Invalid email format'' None), s)
      else
        (case getMxRecords rt (domainOf addr) s of
           (None, s1) \<Rightarrow>
             (Fulfilled (mkOutcome addr False no_mx_record
                ''No MX record found for domain'' None), s1)
         | (Some mxRecords, s1) \<Rightarrow>
             if length mxRecords = 0
             then (Fulfilled (mkOutcome addr False no_mx_record
                     ''No MX record found for domain'' None), s1)
             else tryMxRecords rt cfg addr mxRecords s1))"

section \<open>Cache and rate limiter: \<^verbatim>\<open>AdvancedEmailVerifier\<close>\<close>

definition getFromCache ::
  "'w runtime \<Rightarrow> config \<Rightarrow> string \<Rightarrow> 'w verifier \<Rightarrow> outcome option \<times> 'w verifier" where
  "getFromCache rt cfg addr s =
     (case cache s addr of
        None \<Rightarrow> (None, s)
      | Some cached \<Rightarrow>
          if now rt (world s) - timestamp cached < cacheExpiry cfg
          then (Some (result cached), s)
          else (None, s\<lparr>cache := (cache s)(addr := None)\<rparr>))"

definition addToCache :: "'w runtime \<Rightarrow> string \<Rightarrow> outcome \<Rightarrow> 'w verifier \<Rightarrow> 'w verifier" where
  "addToCache rt addr r s =
     s\<lparr>cache := (cache s)(addr \<mapsto> \<lparr>result = r, timestamp = now rt (world s)\<rparr>)\<rparr>"

definition checkRateLimit ::
  "'w runtime \<Rightarrow> config \<Rightarrow> string option \<Rightarrow> 'w verifier \<Rightarrow> bool \<times> 'w verifier" where
  "checkRateLimit rt cfg domain s =
     (let t = now rt (world s);
          domainRequests = (case rateLimiter s domain of None \<Rightarrow> [] | Some ts \<Rightarrow> ts);
          validRequests = filter (\<lambda>ts. t - ts < rateLimitWindow cfg) domainRequests
      in if int (length validRequests) \<ge> maxRequestsPerDomain cfg then (False, s)
         else (True, s\<lparr>rateLimiter := (rateLimiter s)(domain \<mapsto> validRequests @ [t])\<rparr>))"

definition verifyEmailAdvanced :: "'w runtime \<Rightarrow> config \<Rightarrow> string \<Rightarrow> ('w, outcome) task" where
  "verifyEmailAdvanced rt cfg addr s =
     (case getFromCache rt cfg addr s of
        (Some cached, s1) \<Rightarrow> (Fulfilled (cached\<lparr>fromCache := True\<rparr>), s1)
      | (None, s1) \<Rightarrow>
          (case checkRateLimit rt cfg (domainOf addr) s1 of
             (False, s2) \<Rightarrow>
               (Fulfilled (mkOutcome addr False rate_limited
                  ''Rate limit exceeded for domain'' None), s2)
           | (True, s2) \<Rightarrow>
               (case verifyEmail rt cfg addr s2 of
                  (Fulfilled r, s3) \<Rightarrow> (Fulfilled r, addToCache rt addr r s3)
                | (Rejected e, s3) \<Rightarrow> (Rejected e, s3)
                | (Pending, s3) \<Rightarrow> (Pending, s3))))"

section \<open>The scheduler: \<^verbatim>\<open>BulkEmailProcessor\<close>\<close>

text \<open>
  \<^verbatim>\<open>verifyWithRetry(email, attempt)\<close>; \<open>v\<close> is the method
  \<^verbatim>\<open>this.verifier.verifyEmailAdvanced\<close> and \<open>n\<close> is \<^verbatim>\<open>this.retryAttempts\<close>.  A rejected
  promise of \<open>v\<close> is the exception that the handler of the source catches.
\<close>

function verifyWithRetry ::
  "(string \<Rightarrow> ('w, outcome) task) \<Rightarrow> 'w runtime \<Rightarrow> nat \<Rightarrow> string \<Rightarrow> nat \<Rightarrow> ('w, outcome) task" where
  "verifyWithRetry v rt n addr attempt s =
     (case v addr s of
        (Fulfilled r, s1) \<Rightarrow>
          if status r = temporary_failure \<and> attempt \<le> n
          then verifyWithRetry v rt n addr (attempt + 1) (wait rt (5000 * int attempt) s1)
          else (Fulfilled r, s1)
      | (Rejected e, s1) \<Rightarrow>
          if attempt \<le> n
          then verifyWithRetry v rt n addr (attempt + 1) (wait rt (3000 * int attempt) s1)
          else (Rejected e, s1)
      | (Pending, s1) \<Rightarrow> (Pending, s1))"
  by pat_completeness auto
termination
  by (relation "measure (\<lambda>(v, rt, n, addr, attempt, s). Suc n - attempt)") auto





text \<open>The scheduler as the source composes it.\<close>

definition retryingVerifier :: "'w runtime \<Rightarrow> config \<Rightarrow> string \<Rightarrow> ('w, outcome) task" where
  "retryingVerifier rt cfg addr =
     verifyWithRetry (verifyEmailAdvanced rt cfg) rt (retryAttempts cfg) addr 1"

section \<open>Asynchronous calls, the event loop, and \<^verbatim>\<open>processBatch\<close>\<close>

text \<open>
  The definitions so far give each method as one call run from its start to its
  settlement, with nothing else in progress.  The members of a concurrency group are in
  progress together: \<^verbatim>\<open>processBatch\<close> calls them all before it awaits any of them, and
  each runs up to its first \<^verbatim>\<open>await\<close> when it is called.  For the group, the methods on
  the path of a member are given again in this section, with their \<^verbatim>\<open>await\<close>s as the
  points where the event loop may resume another member.
\<close>

text \<open>
  An asynchronous call in progress.  It has settled, or it is suspended at an \<^verbatim>\<open>await\<close>:
  \<open>Suspended u k\<close>, resumed by the event loop in a state \<open>s\<close>, runs in one turn up to its
  next \<^verbatim>\<open>await\<close>, which leaves the state \<open>u s\<close> and the call in progress \<open>k s\<close>.  A
  call whose promise never settles is \<open>Settled Pending\<close>.  An \<open>async\<close> is an asynchronous
  function applied to its arguments: called in a state, it runs its synchronous part in
  the turn of its caller and hands back the call in progress.
\<close>

datatype ('s, 'a) proc = Settled "'a promise" | Suspended "'s \<Rightarrow> 's" "'s \<Rightarrow> ('s, 'a) proc"

type_synonym ('s, 'a) async = "'s \<Rightarrow> ('s, 'a) proc \<times> 's"

primrec isSuspended :: "('s, 'a) proc \<Rightarrow> bool" where
  "isSuspended (Settled p) = False"
| "isSuspended (Suspended u k) = True"

primrec settledWith :: "('s, 'a) proc \<Rightarrow> 'a promise" where
  "settledWith (Settled p) = p"
| "settledWith (Suspended u k) = Pending"

text \<open>An asynchronous function that returns or throws without an \<^verbatim>\<open>await\<close>; and an operation
  that the runtime completes in a later turn, with what the world is then.\<close>

definition settled :: "'a promise \<Rightarrow> ('s, 'a) async" where
  "settled p s = (Settled p, s)"

definition completes :: "('s \<Rightarrow> 'a promise \<times> 's) \<Rightarrow> ('s, 'a) async" where
  "completes t s = (Suspended (\<lambda>s'. snd (t s')) (\<lambda>s'. Settled (fst (t s'))), s)"

text \<open>
  \<^verbatim>\<open>const x = await m; ...\<close> with the rest of the function as \<open>g\<close>: the operand is
  called in the current turn, and the rest runs in a later turn, after the operand has
  settled, also when it had settled at once.  When the operand never settles, the rest
  never runs.
\<close>

primrec thenP :: "('s, 'a) proc \<Rightarrow> ('a promise \<Rightarrow> ('s, 'b) async) \<Rightarrow> ('s, 'b) proc" where
  "thenP (Settled x) g =
     (case x of
        Pending \<Rightarrow> Settled Pending
      | _ \<Rightarrow> Suspended (\<lambda>s. snd (g x s)) (\<lambda>s. fst (g x s)))"
| "thenP (Suspended u k) g = Suspended u (\<lambda>s. thenP (k s) g)"

definition awaitThen :: "('s, 'a) async \<Rightarrow> ('a promise \<Rightarrow> ('s, 'b) async) \<Rightarrow> ('s, 'b) async" where
  "awaitThen m g s = (case m s of (p, s1) \<Rightarrow> (thenP p g, s1))"

text \<open>
  The methods of the verifier as asynchronous functions.  The lookup of
  \<^verbatim>\<open>getMxRecords\<close> and the probe of \<^verbatim>\<open>verifyWithMxRecord\<close> are completed by the runtime;
  the reading of the cache and of the rate limiter is the synchronous part of
  \<^verbatim>\<open>verifyEmailAdvanced\<close>, and the storing of the result follows its \<^verbatim>\<open>await\<close>.
\<close>

primrec tryMxRecordsAsync ::
  "'w runtime \<Rightarrow> config \<Rightarrow> string \<Rightarrow> mx_record list \<Rightarrow> ('w verifier, outcome) async" where
  "tryMxRecordsAsync rt cfg addr [] =
     settled (Fulfilled (mkOutcome addr False connection_failed
        ''Could not connect to any mail server'' None))"
| "tryMxRecordsAsync rt cfg addr (mx # rest) =
     awaitThen (completes (verifyWithMxRecord rt cfg addr (exchange mx)))
       (\<lambda>p. case p of
          Fulfilled r \<Rightarrow>
            if status r \<noteq> connection_failed then settled (Fulfilled r)
            else tryMxRecordsAsync rt cfg addr rest
        | Rejected e \<Rightarrow> tryMxRecordsAsync rt cfg addr rest
        | Pending \<Rightarrow> settled Pending)"

definition verifyEmailAsync :: "'w runtime \<Rightarrow> config \<Rightarrow> string \<Rightarrow> ('w verifier, outcome) async" where
  "verifyEmailAsync rt cfg addr =
     (if \<not> isValidEmailFormat addr
      then settled (Fulfilled (mkOutcome addr False invalid_format ''Invalid email format'' None))
      else
        awaitThen
          (completes (\<lambda>s. case getMxRecords rt (domainOf addr) s of (m, s1) \<Rightarrow> (Fulfilled m, s1)))
          (\<lambda>p. case p of
             Fulfilled None \<Rightarrow>
               settled (Fulfilled (mkOutcome addr False no_mx_record
                  ''No MX record found for domain'' None))
           | Fulfilled (Some mxRecords) \<Rightarrow>
               if length mxRecords = 0
               then settled (Fulfilled (mkOutcome addr False no_mx_record
                       ''No MX record found for domain'' None))
               else tryMxRecordsAsync rt cfg addr mxRecords
           | Rejected e \<Rightarrow> settled (Fulfilled (mkOutcome addr False error e None))
           | Pending \<Rightarrow> settled Pending))"

definition verifyEmailAdvancedAsync ::
  "'w runtime \<Rightarrow> config \<Rightarrow> string \<Rightarrow> ('w verifier, outcome) async" where
  "verifyEmailAdvancedAsync rt cfg addr s =
     (case getFromCache rt cfg addr s of
        (Some cached, s1) \<Rightarrow> settled (Fulfilled (cached\<lparr>fromCache := True\<rparr>)) s1
      | (None, s1) \<Rightarrow>
          (case checkRateLimit rt cfg (domainOf addr) s1 of
             (False, s2) \<Rightarrow>
               settled (Fulfilled (mkOutcome addr False rate_limited
                  ''Rate limit exceeded for domain'' None)) s2
           | (True, s2) \<Rightarrow>
               awaitThen (verifyEmailAsync rt cfg addr)
                 (\<lambda>p s3. case p of
                    Fulfilled r \<Rightarrow> settled (Fulfilled r) (addToCache rt addr r s3)
                  | Rejected e \<Rightarrow> settled (Rejected e) s3
                  | Pending \<Rightarrow> settled Pending s3) s2))"

text \<open>\<^verbatim>\<open>new Promise((resolve) => setTimeout(resolve, ms))\<close>.\<close>

definition timeout :: "'w runtime \<Rightarrow> int \<Rightarrow> ('w verifier, unit) async" where
  "timeout rt ms = completes (\<lambda>s. (Fulfilled (), wait rt ms s))"

function verifyWithRetryAsync ::
  "(string \<Rightarrow> ('w verifier, outcome) async) \<Rightarrow> 'w runtime \<Rightarrow> nat \<Rightarrow> string \<Rightarrow> nat
     \<Rightarrow> ('w verifier, outcome) async" where
  "verifyWithRetryAsync v rt n addr attempt =
     awaitThen (v addr)
       (\<lambda>p. case p of
          Fulfilled r \<Rightarrow>
            if status r = temporary_failure \<and> attempt \<le> n
            then awaitThen (timeout rt (5000 * int attempt))
                   (\<lambda>u. verifyWithRetryAsync v rt n addr (attempt + 1))
            else settled (Fulfilled r)
        | Rejected e \<Rightarrow>
            if attempt \<le> n
            then awaitThen (timeout rt (3000 * int attempt))
                   (\<lambda>u. verifyWithRetryAsync v rt n addr (attempt + 1))
            else settled (Rejected e)
        | Pending \<Rightarrow> settled Pending)"
  by pat_completeness auto
termination
  by (relation "measure (\<lambda>(v, rt, n, addr, attempt). Suc n - attempt)") auto

text \<open>
  \<^verbatim>\<open>group.map((email) => this.verifyWithRetry(email))\<close>: the members are called one after
  the other, each running its synchronous part, before any of them is resumed.
\<close>

fun startAll ::
  "(string \<Rightarrow> ('s, 'a) async) \<Rightarrow> string list \<Rightarrow> 's \<Rightarrow> ('s, 'a) proc list \<times> 's" where
  "startAll f [] s = ([], s)"
| "startAll f (addr # rest) s =
     (case f addr s of
        (m, s1) \<Rightarrow> (case startAll f rest s1 of (ms, s2) \<Rightarrow> (m # ms, s2)))"

text \<open>
  The event loop while the caller waits for all members: as long as members are suspended,
  one of them is resumed for a turn.  Which one is the choice of the runtime, \<open>pick\<close>, made
  from the state and the calls in progress; these are never the same at two turns of one
  loop, so every order in which the members of a group can take their turns is the order
  of some \<open>pick\<close>.  \<open>resumes\<close> relates a call in progress to what it was one turn
  earlier.
\<close>

definition resumes :: "(('s, 'a) proc \<times> ('s, 'a) proc) set" where
  "resumes = {(k s, Suspended u k) | u k s. True}"

function eventLoop ::
  "('s \<Rightarrow> ('s, 'a) proc list \<Rightarrow> nat) \<Rightarrow> ('s, 'a) proc list \<Rightarrow> 's \<Rightarrow> ('s, 'a) proc list \<times> 's" where
  "eventLoop pick ms s =
     (let waiting = filter (\<lambda>i. isSuspended (ms ! i)) [0..<length ms] in
      if waiting = [] then (ms, s)
      else
        (let i = waiting ! (pick s ms mod length waiting) in
         case ms ! i of
           Suspended u k \<Rightarrow> eventLoop pick (ms[i := k s]) (u s)
         | Settled p \<Rightarrow> (ms, s)))"
  by pat_completeness auto
termination
  apply (relation "inv_image (lex resumes) (\<lambda>(pick, ms, s). ms)")
  subgoal
    apply (rule wf_inv_image, rule wf_lex, rule wfUNIVI)
    subgoal premises h for P x
    proof (induction x)
      case (Settled p)
      show ?case using h[rule_format, of "Settled p"] by (simp add: resumes_def)
    next
      case (Suspended u k)
      show ?case
      proof (rule h[rule_format])
        fix y assume "(y, Suspended u k) \<in> resumes"
        then obtain s where "y = k s" by (auto simp: resumes_def)
        then show "P y" using Suspended by simp
      qed
    qed
    done
  subgoal premises h for pick ms s waiting i u k
  proof -
    have "i \<in> set waiting" unfolding h(3) using h(2) by (intro nth_mem) simp
    then have il: "i < length ms" unfolding h(1) by simp
    have a: "ms[i := k s] = take i ms @ k s # drop (Suc i) ms" using il by (rule upd_conv_take_nth_drop)
    have b: "ms = take i ms @ Suspended u k # drop (Suc i) ms" using il h(4) by (metis id_take_nth_drop)
    have "(take i ms @ k s # drop (Suc i) ms, take i ms @ Suspended u k # drop (Suc i) ms) \<in> lex resumes"
      unfolding lex_conv resumes_def
      by (simp, intro exI[of _ "take i ms"] exI[of _ "k s"] conjI exI[of _ "drop (Suc i) ms"]
            exI[of _ "Suspended u k"] exI[of _ u] exI[of _ k] exI[of _ s] refl)
    with a b have "(ms[i := k s], ms) \<in> lex resumes" by simp
    then show ?thesis by simp
  qed
  done

text \<open>
  \<^verbatim>\<open>await Promise.allSettled(group.map(...))\<close>: the settled states in the order of the
  group, whatever the order in which the members settled.  When a member never settles,
  neither does the whole.
\<close>

definition allSettled ::
  "(string \<Rightarrow> ('s, 'a) async) \<Rightarrow> ('s \<Rightarrow> ('s, 'a) proc list \<Rightarrow> nat) \<Rightarrow> string list \<Rightarrow> 's
     \<Rightarrow> 'a promise list option \<times> 's" where
  "allSettled f pick members s =
     (case startAll f members s of
        (ms, s1) \<Rightarrow>
          (case eventLoop pick ms s1 of
             (ms', s2) \<Rightarrow>
               if Pending \<in> set (map settledWith ms') then (None, s2)
               else (Some (map settledWith ms'), s2)))"




section \<open>Auxiliary notions for the statements\<close>

definition CRLF :: string where
  "CRLF = [CHR 0x0D, CHR 0x0A]"

text \<open>What holds of the closure of a session at every moment of its life.\<close>

definition sessionInv :: "session \<Rightarrow> bool" where
  "sessionInv s =
     (settlements s = take 1 (attempts s) \<and> isResolved s = (attempts s \<noteq> []) \<and>
      (attempts s = [] \<or> destroyed s) \<and> destroyCalls s \<le> 1 \<and>
      (destroyCalls s = 0 \<or> destroyed s))"

text \<open>A session that has settled with the outcome \<open>r\<close>, its socket destroyed, after it has
  written \<open>w\<close>.\<close>

definition settledAs :: "outcome \<Rightarrow> string list \<Rightarrow> session \<Rightarrow> bool" where
  "settledAs r w s =
     (isResolved s \<and> destroyed s \<and> step s = quit \<and> settlements s = [Resolve r] \<and> written s = w)"

text \<open>The classification of the reply to \<^verbatim>\<open>RCPT TO\<close> in the words of the specification:
  250 is \<open>valid\<close>, 500 to 599 is \<open>invalid\<close>, 400 to 499 is \<open>temporary_failure\<close>, anything
  else is \<open>unknown_response\<close>.\<close>

definition rcptStatus :: "int option \<Rightarrow> status" where
  "rcptStatus code =
     (case code of
        None \<Rightarrow> unknown_response
      | Some c \<Rightarrow>
          if c = 250 then valid
          else if 500 \<le> c \<and> c \<le> 599 then invalid
          else if 400 \<le> c \<and> c \<le> 499 then temporary_failure
          else unknown_response)"

definition rcptMessage :: "string \<Rightarrow> string" where
  "rcptMessage line =
     (case rcptStatus (replyCode line) of
        valid \<Rightarrow> ''Email address is valid''
      | invalid \<Rightarrow> ''Email address rejected: '' @ line
      | temporary_failure \<Rightarrow> ''Temporary failure: '' @ line
      | _ \<Rightarrow> ''Unknown response: '' @ line)"

definition rcptOutcome :: "string \<Rightarrow> string \<Rightarrow> outcome" where
  "rcptOutcome addr line =
     \<lparr>email = addr, isValid = (replyCode line = Some 250), status = rcptStatus (replyCode line),
      message = rcptMessage line, smtpResponse = Some line, fromCache = False\<rparr>"

text \<open>An example conversation: a server that accepts the greeting, \<^verbatim>\<open>EHLO\<close> and
  \<^verbatim>\<open>MAIL FROM\<close>.\<close>

definition acceptingServer :: "socket_event list" where
  "acceptingServer =
     [EvConnect, EvData (''220 mx ready'' @ CRLF), EvData (''250 hello'' @ CRLF),
      EvData (''250 sender ok'' @ CRLF)]"

text \<open>What each host of a list yields when the hosts are probed in turn, and whether a
  probe "yields \<open>connection_failed\<close> or throws".\<close>

fun probeAll :: "'w runtime \<Rightarrow> config \<Rightarrow> string \<Rightarrow> mx_record list \<Rightarrow> 'w verifier \<Rightarrow> outcome promise list" where
  "probeAll rt cfg addr [] s = []"
| "probeAll rt cfg addr (mx # rest) s =
     (case verifyWithMxRecord rt cfg addr (exchange mx) s of
        (p, s1) \<Rightarrow> p # probeAll rt cfg addr rest s1)"

definition inconclusive :: "outcome promise \<Rightarrow> bool" where
  "inconclusive p =
     (case p of Fulfilled r \<Rightarrow> status r = connection_failed | Rejected e \<Rightarrow> True | Pending \<Rightarrow> False)"

text \<open>
  A scripted runtime for the examples.  The world is the clock; a lookup takes 20 ms and
  a connection 100 ms.  The domain \<open>b.c\<close> has two hosts: \<open>mx1.b.c\<close>, preferred, refuses
  the connection; \<open>mx2.b.c\<close> accepts everything up to \<^verbatim>\<open>RCPT TO\<close> and answers it with
  450.  No other domain resolves.
\<close>

definition scriptedRuntime :: "int runtime" where
  "scriptedRuntime =
     \<lparr>now = (\<lambda>w. w),
      sleep = (\<lambda>ms w. w + ms),
      resolveMx = (\<lambda>d w.
        (if d = ''b.c''
         then Inr [\<lparr>exchange = ''mx2.b.c'', priority = 20\<rparr>, \<lparr>exchange = ''mx1.b.c'', priority = 10\<rparr>]
         else Inl ''queryMx ENOTFOUND'', w + 20)),
      socketEvents = (\<lambda>h w.
        (if h = ''mx1.b.c'' then [EvError ''connect ECONNREFUSED'', EvClose]
         else acceptingServer @ [EvData (''450 try again later'' @ CRLF), EvClose], w + 100))\<rparr>"

definition freshVerifier :: "int verifier" where
  "freshVerifier = \<lparr>world = 0, accesses = [], timers = [], cache = Map.empty, rateLimiter = Map.empty\<rparr>"

definition exampleConfig :: config where
  "exampleConfig = \<lparr>fromEmail = ''test@example.com'', cacheExpiry = 3600000, maxRequestsPerDomain = 5,
      rateLimitWindow = 60000, batchSize = 2, concurrency = 3, delay = 2000, retryAttempts = 2\<rparr>"

text \<open>The requests recorded for a domain, and a series of calls of \<^verbatim>\<open>checkRateLimit\<close> for it,
  each made in the world given for it.\<close>

definition requestsOf :: "'w verifier \<Rightarrow> string option \<Rightarrow> int list" where
  "requestsOf s domain = (case rateLimiter s domain of None \<Rightarrow> [] | Some ts \<Rightarrow> ts)"

fun acquisitions ::
  "'w runtime \<Rightarrow> config \<Rightarrow> string option \<Rightarrow> 'w list \<Rightarrow> 'w verifier \<Rightarrow> bool list \<times> 'w verifier" where
  "acquisitions rt cfg domain [] s = ([], s)"
| "acquisitions rt cfg domain (w # ws) s =
     (case checkRateLimit rt cfg domain (s\<lparr>world := w\<rparr>) of
        (ok, s1) \<Rightarrow>
          (case acquisitions rt cfg domain ws s1 of (oks, s2) \<Rightarrow> (ok # oks, s2)))"

text \<open>States of the verifier for the examples: the outcome that the scripted host
  \<open>mx2.b.c\<close> leads to; a cache that holds it since time 0, read at time \<open>t\<close>; a rate
  window with five requests; the state after the rate limiter has admitted the first
  request for \<open>b.c\<close>, and the state after the probes that follow.\<close>

definition busyOutcome :: outcome where
  "busyOutcome =
     mkOutcome ''a@b.c'' False temporary_failure ''Temporary failure: 450 try again later''
       (Some ''450 try again later'')"

definition cachedVerifier :: "int \<Rightarrow> int verifier" where
  "cachedVerifier t =
     freshVerifier\<lparr>world := t,
       cache := [''a@b.c'' \<mapsto>
         \<lparr>result = busyOutcome,
          timestamp = 0\<rparr>]\<rparr>"

definition busyVerifier :: "int verifier" where
  "busyVerifier =
     freshVerifier\<lparr>world := 60040, rateLimiter := [Some ''b.c'' \<mapsto> [0, 10, 20, 30, 40]]\<rparr>"

definition admittedVerifier :: "int verifier" where
  "admittedVerifier = freshVerifier\<lparr>rateLimiter := [Some ''b.c'' \<mapsto> [0]]\<rparr>"

definition probedVerifier :: "int verifier" where
  "probedVerifier =
     admittedVerifier\<lparr>world := 220,
       accesses := [DnsLookup ''b.c'', Connect ''mx1.b.c'', Connect ''mx2.b.c'']\<rparr>"

text \<open>The state after the backoff delays that follow the attempts \<open>a\<close> to \<open>k\<close> of a retry
  whose attempts all end in a temporary failure.\<close>

definition backoffs :: "'w runtime \<Rightarrow> nat \<Rightarrow> nat \<Rightarrow> 'w verifier \<Rightarrow> 'w verifier" where
  "backoffs rt a k s = foldl (\<lambda>s i. wait rt (5000 * int i) s) s [a..<Suc k]"

text \<open>For the examples of the retry: a verifier that answers every address with a temporary
  failure and enters each of its calls in the log of accesses, and the state in which the
  retries of \<open>a@b.c\<close> on the scripted runtime end.\<close>

definition alwaysBusy :: "string \<Rightarrow> (int, outcome) task" where
  "alwaysBusy addr s =
     (Fulfilled (mkOutcome addr False temporary_failure ''Temporary failure: 450 busy''
        (Some ''450 busy'')),
      s\<lparr>accesses := accesses s @ [Connect addr]\<rparr>)"

definition retriedVerifier :: "int verifier" where
  "retriedVerifier =
     \<lparr>world = 15220,
      accesses = [DnsLookup ''b.c'', Connect ''mx1.b.c'', Connect ''mx2.b.c''],
      timers = [5000, 10000],
      cache = [''a@b.c'' \<mapsto> \<lparr>result = busyOutcome, timestamp = 220\<rparr>],
      rateLimiter = [Some ''b.c'' \<mapsto> [0]]\<rparr>"



definition resolvesFor :: "string \<Rightarrow> session \<Rightarrow> bool" where
  "resolvesFor addr s = (\<forall>r. Resolve r \<in> set (attempts s) \<longrightarrow> email r = addr)"








text \<open>
  A runtime is settling when every connection it offers delivers one of the events that
  settle a session whatever came before: an error, an idle timeout, the close of the
  socket, or the firing of the timer while it is still armed.
\<close>

fun isErrorEvent :: "socket_event \<Rightarrow> bool" where
  "isErrorEvent (EvError m) = True"
| "isErrorEvent _ = False"

definition settling :: "socket_event list \<Rightarrow> bool" where
  "settling evs =
     (list_ex isErrorEvent evs \<or> EvSocketTimeout \<in> set evs \<or> EvClose \<in> set evs \<or>
      (EvTimer \<in> set evs \<and> EvEnd \<notin> set evs))"

definition settlingRuntime :: "'w runtime \<Rightarrow> bool" where
  "settlingRuntime rt = (\<forall>h w. settling (fst (socketEvents rt h w)))"









text \<open>A call in progress run with nothing else in the loop, and an asynchronous function
  awaited by a caller that has nothing else in progress.\<close>

primrec runAlone :: "('s, 'a) proc \<Rightarrow> 's \<Rightarrow> 'a promise \<times> 's" where
  "runAlone (Settled p) s = (p, s)"
| "runAlone (Suspended u k) s = runAlone (k s) (u s)"

definition alone :: "('s, 'a) async \<Rightarrow> 's \<Rightarrow> 'a promise \<times> 's" where
  "alone m s = (case m s of (p, s1) \<Rightarrow> runAlone p s1)"










section \<open>Properties of the probe session\<close>

lemmas session_defs =
  runSession_def onEvent_def newSession_def onData_def processLine_def trimTruthy_def
  isSpace_def handleSmtpResponse_def replyCode_def parseInt_def isDigit_def digitOf_def
  digitValue_def Let_def resolveOnce_def rejectOnce_def cleanup_def getNextStep_def
  sendCommand_def getLocalHostname_def mkOutcome_def promiseOf_def CRLF_def

subsection \<open>The invariant\<close>

lemma inv_new: "sessionInv newSession"
  by (simp add: sessionInv_def newSession_def)

lemma inv_resolve: "sessionInv s \<Longrightarrow> sessionInv (resolveOnce r s)"
  by (cases "attempts s") (auto simp: sessionInv_def resolveOnce_def cleanup_def Let_def)

lemma inv_reject: "sessionInv s \<Longrightarrow> sessionInv (rejectOnce e s)"
  by (cases "attempts s") (auto simp: sessionInv_def rejectOnce_def cleanup_def Let_def)

lemma inv_send: "sessionInv s \<Longrightarrow> sessionInv (sendCommand c s)"
  by (cases "destroyed s") (simp_all add: sessionInv_def sendCommand_def)

lemma inv_handle: "sessionInv s \<Longrightarrow> sessionInv (handleSmtpResponse sender line addr stp s)"
  by (cases stp) (simp_all add: handleSmtpResponse_def Let_def inv_resolve inv_send)

lemma inv_step: "sessionInv s \<Longrightarrow> sessionInv (s\<lparr>step := x\<rparr>)"
  by (simp add: sessionInv_def)

lemma inv_line: "sessionInv s \<Longrightarrow> sessionInv (processLine sender addr s line)"
  by (simp add: processLine_def Let_def inv_step inv_handle)

lemma inv_lines: "sessionInv s \<Longrightarrow> sessionInv (foldl (processLine sender addr) s ls)"
  by (induction ls arbitrary: s) (simp_all add: inv_line)

lemma inv_data: "sessionInv s \<Longrightarrow> sessionInv (onData sender addr chunk s)"
  unfolding onData_def Let_def by (rule inv_lines) (simp add: sessionInv_def)

lemma inv_destroyed: "sessionInv s \<Longrightarrow> sessionInv (s\<lparr>destroyed := True\<rparr>)"
  by (auto simp: sessionInv_def)

lemma inv_timer: "sessionInv s \<Longrightarrow> sessionInv (s\<lparr>timerArmed := b\<rparr>)"
  by (auto simp: sessionInv_def)

lemma inv_event: "sessionInv s \<Longrightarrow> sessionInv (onEvent sender addr s ev)"
  by (cases ev) (simp_all add: onEvent_def Let_def inv_data inv_reject inv_destroyed inv_timer)

lemma inv_events: "sessionInv s \<Longrightarrow> sessionInv (foldl (onEvent sender addr) s evs)"
  by (induction evs arbitrary: s) (simp_all add: inv_event)

lemma inv_run: "sessionInv (runSession sender addr evs)"
  by (simp add: runSession_def inv_events inv_new)

subsection \<open>Once a source has fired, the log of attempts stays non-empty\<close>

lemma att_resolve: "attempts (resolveOnce r s) \<noteq> []"
  by (simp add: resolveOnce_def Let_def cleanup_def)

lemma att_reject: "attempts (rejectOnce e s) \<noteq> []"
  by (simp add: rejectOnce_def Let_def cleanup_def)

lemma att_handle:
  "attempts s \<noteq> [] \<Longrightarrow> attempts (handleSmtpResponse sender line addr stp s) \<noteq> []"
  by (cases stp) (simp_all add: handleSmtpResponse_def Let_def att_resolve sendCommand_def)

lemma att_line: "attempts s \<noteq> [] \<Longrightarrow> attempts (processLine sender addr s line) \<noteq> []"
  by (simp add: processLine_def Let_def att_handle)

lemma att_lines:
  "attempts s \<noteq> [] \<Longrightarrow> attempts (foldl (processLine sender addr) s ls) \<noteq> []"
  by (induction ls arbitrary: s) (simp_all add: att_line)

lemma att_data: "attempts s \<noteq> [] \<Longrightarrow> attempts (onData sender addr chunk s) \<noteq> []"
  unfolding onData_def Let_def by (rule att_lines) simp

lemma att_event: "attempts s \<noteq> [] \<Longrightarrow> attempts (onEvent sender addr s ev) \<noteq> []"
  by (cases ev) (simp_all add: onEvent_def Let_def att_data att_reject)

lemma att_trigger:
  "sessionInv s \<Longrightarrow>
   ev = EvError m \<or> ev = EvSocketTimeout \<or> ev = EvClose \<or> (ev = EvTimer \<and> timerArmed s) \<Longrightarrow>
   attempts (onEvent sender addr s ev) \<noteq> []"
  by (auto simp: onEvent_def Let_def att_reject sessionInv_def)

subsection \<open>Only the \<^verbatim>\<open>end\<close> event clears the timer\<close>

lemma armed_resolve: "timerArmed (resolveOnce r s) = timerArmed s"
  by (simp add: resolveOnce_def Let_def cleanup_def)

lemma armed_handle: "timerArmed (handleSmtpResponse sender line addr stp s) = timerArmed s"
  by (cases stp) (simp_all add: handleSmtpResponse_def Let_def armed_resolve sendCommand_def)

lemma armed_line: "timerArmed (processLine sender addr s line) = timerArmed s"
  by (simp add: processLine_def Let_def armed_handle)

lemma armed_lines: "timerArmed (foldl (processLine sender addr) s ls) = timerArmed s"
  by (induction ls arbitrary: s) (simp_all add: armed_line)

lemma armed_data: "timerArmed (onData sender addr chunk s) = timerArmed s"
  by (simp add: onData_def Let_def armed_lines)

lemma armed_event:
  "ev \<noteq> EvEnd \<Longrightarrow> timerArmed s \<or> attempts s \<noteq> [] \<Longrightarrow>
   timerArmed (onEvent sender addr s ev) \<or> attempts (onEvent sender addr s ev) \<noteq> []"
  by (cases ev) (auto simp: onEvent_def Let_def armed_data att_reject att_data)

lemma run_snoc:
  "runSession sender addr (evs @ [ev]) = onEvent sender addr (runSession sender addr evs) ev"
  by (simp add: runSession_def)

lemma armed_run:
  "EvEnd \<notin> set evs \<Longrightarrow>
   timerArmed (runSession sender addr evs) \<or> attempts (runSession sender addr evs) \<noteq> []"
proof (induction evs rule: rev_induct)
  case Nil
  show ?case by (simp add: runSession_def newSession_def)
next
  case (snoc ev evs)
  then show ?case
    using armed_event[of ev "runSession sender addr evs" sender addr]
    by (auto simp: run_snoc)
qed

lemma fired_run:
  "(\<exists>m. EvError m \<in> set evs) \<or> EvSocketTimeout \<in> set evs \<or> EvClose \<in> set evs \<or>
   (EvTimer \<in> set evs \<and> EvEnd \<notin> set evs) \<Longrightarrow>
   attempts (runSession sender addr evs) \<noteq> []"
proof (induction evs rule: rev_induct)
  case Nil
  then show ?case by simp
next
  case (snoc ev evs)
  let ?s = "runSession sender addr evs"
  show ?case
  proof (cases "attempts ?s = []")
    case False
    then show ?thesis by (simp add: run_snoc att_event)
  next
    case True
    with snoc.IH have none:
      "\<not> ((\<exists>m. EvError m \<in> set evs) \<or> EvSocketTimeout \<in> set evs \<or> EvClose \<in> set evs \<or>
          (EvTimer \<in> set evs \<and> EvEnd \<notin> set evs))"
      by blast
    with snoc.prems have trig:
      "(\<exists>m. ev = EvError m) \<or> ev = EvSocketTimeout \<or> ev = EvClose \<or>
       (ev = EvTimer \<and> EvEnd \<notin> set evs)"
      by auto
    have "ev = EvTimer \<and> EvEnd \<notin> set evs \<Longrightarrow> timerArmed ?s"
      using armed_run[of evs sender addr] True by simp
    with trig obtain m where
      "ev = EvError m \<or> ev = EvSocketTimeout \<or> ev = EvClose \<or> (ev = EvTimer \<and> timerArmed ?s)"
      by blast
    then show ?thesis unfolding run_snoc by (rule att_trigger[OF inv_run])
  qed
qed

lemma noop_resolve:
  "isResolved s \<Longrightarrow> resolveOnce r s = s\<lparr>attempts := attempts s @ [Resolve r]\<rparr>"
  by (simp add: resolveOnce_def Let_def)

lemma noop_reject:
  "isResolved s \<Longrightarrow> rejectOnce e s = s\<lparr>attempts := attempts s @ [Reject e]\<rparr>"
  by (simp add: rejectOnce_def Let_def)

text \<open>
  Claim C1.  Whatever events a session receives and in whatever order, the promise's own
  \<^verbatim>\<open>resolve\<close> or \<^verbatim>\<open>reject\<close> is called exactly once as soon as any source has tried to
  settle, and never before; the call made is the first attempt; after it the socket is
  destroyed and a further \<^verbatim>\<open>resolveOnce\<close> or \<^verbatim>\<open>rejectOnce\<close> changes nothing but the log of
  attempts.  A socket error, a socket timeout, a close, and the timer when no \<^verbatim>\<open>end\<close>
  cleared it, each are such a source.
\<close>

theorem probe_session_settles_once:
  "let s = runSession sender addr evs in
     settlements s = take 1 (attempts s) \<and>
     length (settlements s) = (if attempts s = [] then 0 else 1) \<and>
     (attempts s \<noteq> [] \<longrightarrow>
        destroyed s \<and>
        (\<forall>r. resolveOnce r s = s\<lparr>attempts := attempts s @ [Resolve r]\<rparr>) \<and>
        (\<forall>e. rejectOnce e s = s\<lparr>attempts := attempts s @ [Reject e]\<rparr>)) \<and>
     ((\<exists>m. EvError m \<in> set evs) \<or> EvSocketTimeout \<in> set evs \<or> EvClose \<in> set evs \<or>
      (EvTimer \<in> set evs \<and> EvEnd \<notin> set evs) \<longrightarrow> attempts s \<noteq> [])"
proof -
  let ?s = "runSession sender addr evs"
  have i: "sessionInv ?s" by (rule inv_run)
  have a: "settlements ?s = take 1 (attempts ?s)"
    using i by (simp add: sessionInv_def)
  have b: "length (settlements ?s) = (if attempts ?s = [] then 0 else 1)"
    unfolding a by (cases "attempts ?s") simp_all
  have c: "attempts ?s \<noteq> [] \<Longrightarrow> destroyed ?s \<and> isResolved ?s"
    using i by (auto simp: sessionInv_def)
  show ?thesis
    unfolding Let_def using a b c fired_run[of evs sender addr]
    by (auto simp: noop_resolve noop_reject)
qed

text \<open>A reply that rejects the greeting, then the timer, then the close: one settlement,
  by the reply.\<close>

theorem probe_session_settles_once_witness:
  "let s = runSession ''probe@x.y'' ''a@b.c'' [EvConnect, EvData (''554 no'' @ CRLF), EvTimer, EvClose]
   in EvClose \<in> set [EvConnect, EvData (''554 no'' @ CRLF), EvTimer, EvClose] \<and>
      attempts s \<noteq> [] \<and> length (attempts s) = 2 \<and> length (settlements s) = 1 \<and> destroyed s \<and>
      promiseOf s = Fulfilled (mkOutcome ''a@b.c'' False connection_rejected
                      ''Connection rejected: 554 no'' (Some ''554 no''))"
  using probe_session_settles_once
    [of "''probe@x.y''" "''a@b.c''" "[EvConnect, EvData (''554 no'' @ CRLF), EvTimer, EvClose]"]
  by (simp add: session_defs)

subsection \<open>The reply to \<^verbatim>\<open>RCPT TO\<close>\<close>

lemma rcpt_handle:
  "handleSmtpResponse sender line addr rcpt_to s =
     resolveOnce (rcptOutcome addr line) (sendCommand ''QUIT'' s)"
  by (cases "replyCode line")
     (auto simp: handleSmtpResponse_def Let_def rcptOutcome_def rcptStatus_def rcptMessage_def
        mkOutcome_def)

lemma quit_line: "step s = quit \<Longrightarrow> processLine sender addr s line = s"
  by (simp add: processLine_def handleSmtpResponse_def getNextStep_def Let_def)

lemma quit_lines: "step s = quit \<Longrightarrow> foldl (processLine sender addr) s ls = s"
  by (induction ls) (simp_all add: quit_line)

subsection \<open>A live session is not destroyed, and a settled one is deaf\<close>

lemma live_resolve: "isResolved (resolveOnce r s)"
  by (simp add: resolveOnce_def Let_def cleanup_def)

lemma live_reject: "isResolved (rejectOnce e s)"
  by (simp add: rejectOnce_def Let_def cleanup_def)

lemma live_resolve_keeps:
  "(destroyed s \<longrightarrow> isResolved s) \<Longrightarrow>
   destroyed (resolveOnce r s) \<longrightarrow> isResolved (resolveOnce r s)"
  by (simp add: live_resolve)

lemma live_handle:
  "(destroyed s \<longrightarrow> isResolved s) \<Longrightarrow>
   destroyed (handleSmtpResponse sender line addr stp s) \<longrightarrow>
   isResolved (handleSmtpResponse sender line addr stp s)"
  by (cases stp) (simp_all add: handleSmtpResponse_def Let_def live_resolve sendCommand_def)

lemma live_line:
  "(destroyed s \<longrightarrow> isResolved s) \<Longrightarrow>
   destroyed (processLine sender addr s line) \<longrightarrow> isResolved (processLine sender addr s line)"
  using live_handle[of s sender line addr "step s"] by (simp add: processLine_def Let_def)

lemma live_lines:
  "(destroyed s \<longrightarrow> isResolved s) \<Longrightarrow>
   destroyed (foldl (processLine sender addr) s ls) \<longrightarrow>
   isResolved (foldl (processLine sender addr) s ls)"
proof (induction ls arbitrary: s)
  case Nil
  then show ?case by simp
next
  case (Cons l ls)
  from Cons.IH[OF live_line[OF Cons.prems, of sender addr l]] show ?case by simp
qed

lemma live_event:
  "(destroyed s \<longrightarrow> isResolved s) \<Longrightarrow>
   destroyed (onEvent sender addr s ev) \<longrightarrow> isResolved (onEvent sender addr s ev)"
proof (cases ev)
  case (EvData chunk)
  assume a: "destroyed s \<longrightarrow> isResolved s"
  let ?s0 = "s\<lparr>response := last (splitCRLF [] (response s @ chunk))\<rparr>"
  have "destroyed ?s0 \<longrightarrow> isResolved ?s0" using a by simp
  from live_lines[OF this] show ?thesis using EvData by (simp add: onEvent_def onData_def Let_def)
qed (simp_all add: onEvent_def Let_def live_reject)

lemma live_run:
  "destroyed (runSession sender addr evs) \<longrightarrow> isResolved (runSession sender addr evs)"
proof (induction evs rule: rev_induct)
  case Nil
  show ?case by (simp add: runSession_def newSession_def)
next
  case (snoc ev evs)
  from live_event[OF snoc.IH] show ?case by (simp add: run_snoc)
qed

lemma settledAs_event: "settledAs r w s \<Longrightarrow> settledAs r w (onEvent sender addr s ev)"
proof (cases ev)
  case (EvData chunk)
  assume a: "settledAs r w s"
  let ?s0 = "s\<lparr>response := last (splitCRLF [] (response s @ chunk))\<rparr>"
  have q: "step ?s0 = quit" using a by (simp add: settledAs_def)
  have "onEvent sender addr s ev = ?s0"
    using EvData quit_lines[OF q] by (simp add: onEvent_def onData_def Let_def)
  then show ?thesis using a by (simp add: settledAs_def)
qed (auto simp: settledAs_def onEvent_def Let_def noop_reject)

lemma settledAs_events:
  "settledAs r w s \<Longrightarrow> settledAs r w (foldl (onEvent sender addr) s evs)"
  by (induction evs arbitrary: s) (simp_all add: settledAs_event)

text \<open>
  Claim C2.  Take a session in step \<open>rcpt_to\<close> that has not settled, after whatever events
  brought it there, and a reply line.  The handler writes \<^verbatim>\<open>QUIT\<close> first, while the socket
  is alive, and settles afterwards: had it settled first, the socket would be destroyed
  and nothing would be sent.  The session resolves with the outcome that the reply code
  selects: 250 is \<open>valid\<close> with \<open>isValid\<close> true, 500 to 599 \<open>invalid\<close>, 400 to 499
  \<open>temporary_failure\<close>, anything else \<open>unknown_response\<close>; the outcome carries the
  address and the raw line as \<open>smtpResponse\<close>.  It is terminal: the socket is destroyed,
  the step is \<open>quit\<close>, and whatever events follow, the outcome stays and nothing more is
  sent.
\<close>

theorem rcpt_reply_settles_live_session:
  "let s = runSession sender addr evs;
       s' = processLine sender addr s line;
       r = rcptOutcome addr line
   in step s = rcpt_to \<and> \<not> isResolved s \<and> trimTruthy line \<longrightarrow>
        written s' = written s @ [''QUIT'' @ CRLF] \<and>
        written (sendCommand ''QUIT'' (resolveOnce r s)) = written s \<and>
        attempts s' = [Resolve r] \<and> settlements s' = [Resolve r] \<and>
        promiseOf s' = Fulfilled r \<and>
        email r = addr \<and> smtpResponse r = Some line \<and>
        (replyCode line = Some 250 \<longrightarrow> status r = valid \<and> isValid r) \<and>
        (\<forall>c. replyCode line = Some c \<and> 500 \<le> c \<and> c \<le> 599 \<longrightarrow> status r = invalid \<and> \<not> isValid r) \<and>
        (\<forall>c. replyCode line = Some c \<and> 400 \<le> c \<and> c \<le> 499 \<longrightarrow>
             status r = temporary_failure \<and> \<not> isValid r) \<and>
        ((\<forall>c. replyCode line = Some c \<longrightarrow> c \<noteq> 250 \<and> \<not> (400 \<le> c \<and> c \<le> 599)) \<longrightarrow>
             status r = unknown_response \<and> \<not> isValid r) \<and>
        isResolved s' \<and> destroyed s' \<and> step s' = quit \<and>
        (\<forall>later. let t = foldl (onEvent sender addr) s' later
                  in promiseOf t = Fulfilled r \<and> settlements t = [Resolve r] \<and>
                     written t = written s' \<and> step t = quit)"
proof -
  let ?s = "runSession sender addr evs"
  let ?s' = "processLine sender addr ?s line"
  let ?r = "rcptOutcome addr line"
  have main: "step ?s = rcpt_to \<Longrightarrow> \<not> isResolved ?s \<Longrightarrow> trimTruthy line \<Longrightarrow>
        written ?s' = written ?s @ [''QUIT'' @ CRLF] \<and>
        written (sendCommand ''QUIT'' (resolveOnce ?r ?s)) = written ?s \<and>
        attempts ?s' = [Resolve ?r] \<and> settlements ?s' = [Resolve ?r] \<and>
        promiseOf ?s' = Fulfilled ?r \<and>
        isResolved ?s' \<and> destroyed ?s' \<and> step ?s' = quit \<and>
        (\<forall>later. let t = foldl (onEvent sender addr) ?s' later
                  in promiseOf t = Fulfilled ?r \<and> settlements t = [Resolve ?r] \<and>
                     written t = written ?s' \<and> step t = quit)"
  proof -
    assume a: "step ?s = rcpt_to" "\<not> isResolved ?s" "trimTruthy line"
    have alive: "\<not> destroyed ?s" using live_run[of sender addr evs] a(2) by blast
    have inv: "sessionInv ?s" by (rule inv_run)
    with a(2) have none: "attempts ?s = []" "settlements ?s = []" by (simp_all add: sessionInv_def)
    have e: "?s' = (resolveOnce ?r (sendCommand ''QUIT'' ?s))\<lparr>step := quit\<rparr>"
      using a by (simp add: processLine_def Let_def rcpt_handle getNextStep_def)
    have w: "written ?s' = written ?s @ [''QUIT'' @ CRLF]"
      unfolding e using alive a(2)
      by (simp add: resolveOnce_def sendCommand_def cleanup_def Let_def CRLF_def)
    have o: "written (sendCommand ''QUIT'' (resolveOnce ?r ?s)) = written ?s"
      using a(2) by (simp add: resolveOnce_def sendCommand_def cleanup_def Let_def)
    have f: "attempts ?s' = [Resolve ?r]" "settlements ?s' = [Resolve ?r]" "isResolved ?s'"
      "destroyed ?s'" "step ?s' = quit"
      unfolding e using alive a(2) none
      by (simp_all add: resolveOnce_def sendCommand_def cleanup_def Let_def)
    have p: "promiseOf ?s' = Fulfilled ?r" using f(2) by (simp add: promiseOf_def)
    have sa: "settledAs ?r (written ?s') ?s'" using f by (simp add: settledAs_def)
    have later: "\<forall>later. let t = foldl (onEvent sender addr) ?s' later
                  in promiseOf t = Fulfilled ?r \<and> settlements t = [Resolve ?r] \<and>
                     written t = written ?s' \<and> step t = quit"
    proof
      fix later
      from settledAs_events[OF sa, of sender addr later]
      show "let t = foldl (onEvent sender addr) ?s' later
                  in promiseOf t = Fulfilled ?r \<and> settlements t = [Resolve ?r] \<and>
                     written t = written ?s' \<and> step t = quit"
        by (simp add: settledAs_def Let_def promiseOf_def)
    qed
    from w o f p later show ?thesis by (intro conjI)
  qed
  have cls: "email ?r = addr \<and> smtpResponse ?r = Some line \<and>
        (replyCode line = Some 250 \<longrightarrow> status ?r = valid \<and> isValid ?r) \<and>
        (\<forall>c. replyCode line = Some c \<and> 500 \<le> c \<and> c \<le> 599 \<longrightarrow> status ?r = invalid \<and> \<not> isValid ?r) \<and>
        (\<forall>c. replyCode line = Some c \<and> 400 \<le> c \<and> c \<le> 499 \<longrightarrow>
             status ?r = temporary_failure \<and> \<not> isValid ?r) \<and>
        ((\<forall>c. replyCode line = Some c \<longrightarrow> c \<noteq> 250 \<and> \<not> (400 \<le> c \<and> c \<le> 599)) \<longrightarrow>
             status ?r = unknown_response \<and> \<not> isValid ?r)"
    by (cases "replyCode line") (auto simp: rcptOutcome_def rcptStatus_def)
  show ?thesis
    unfolding Let_def
  proof (intro impI)
    assume h: "step ?s = rcpt_to \<and> \<not> isResolved ?s \<and> trimTruthy line"
    then have "step ?s = rcpt_to" "\<not> isResolved ?s" "trimTruthy line" by simp_all
    note m = main[unfolded Let_def, OF this]
    from m have m1: "written ?s' = written ?s @ [''QUIT'' @ CRLF]" by (rule conjunct1)
    from m have m2: "written (sendCommand ''QUIT'' (resolveOnce ?r ?s)) = written ?s"
      by (rule conjunct2[THEN conjunct1])
    from m have m3: "attempts ?s' = [Resolve ?r]"
      by (rule conjunct2[THEN conjunct2, THEN conjunct1])
    from m have m4: "settlements ?s' = [Resolve ?r]"
      by (rule conjunct2[THEN conjunct2, THEN conjunct2, THEN conjunct1])
    from m have m5: "promiseOf ?s' = Fulfilled ?r"
      by (rule conjunct2[THEN conjunct2, THEN conjunct2, THEN conjunct2, THEN conjunct1])
    from m have m6: "isResolved ?s' \<and> destroyed ?s' \<and> step ?s' = quit \<and>
        (\<forall>later. promiseOf (foldl (onEvent sender addr) ?s' later) = Fulfilled ?r \<and>
                  settlements (foldl (onEvent sender addr) ?s' later) = [Resolve ?r] \<and>
                  written (foldl (onEvent sender addr) ?s' later) = written ?s' \<and>
                  step (foldl (onEvent sender addr) ?s' later) = quit)"
      by (rule conjunct2[THEN conjunct2, THEN conjunct2, THEN conjunct2, THEN conjunct2])
    from m1 m2 m3 m4 m5 cls m6
    show "written ?s' = written ?s @ [''QUIT'' @ CRLF] \<and>
        written (sendCommand ''QUIT'' (resolveOnce ?r ?s)) = written ?s \<and>
        attempts ?s' = [Resolve ?r] \<and> settlements ?s' = [Resolve ?r] \<and>
        promiseOf ?s' = Fulfilled ?r \<and>
        email ?r = addr \<and> smtpResponse ?r = Some line \<and>
        (replyCode line = Some 250 \<longrightarrow> status ?r = valid \<and> isValid ?r) \<and>
        (\<forall>c. replyCode line = Some c \<and> 500 \<le> c \<and> c \<le> 599 \<longrightarrow> status ?r = invalid \<and> \<not> isValid ?r) \<and>
        (\<forall>c. replyCode line = Some c \<and> 400 \<le> c \<and> c \<le> 499 \<longrightarrow>
             status ?r = temporary_failure \<and> \<not> isValid ?r) \<and>
        ((\<forall>c. replyCode line = Some c \<longrightarrow> c \<noteq> 250 \<and> \<not> (400 \<le> c \<and> c \<le> 599)) \<longrightarrow>
             status ?r = unknown_response \<and> \<not> isValid ?r) \<and>
        isResolved ?s' \<and> destroyed ?s' \<and> step ?s' = quit \<and>
        (\<forall>later. promiseOf (foldl (onEvent sender addr) ?s' later) = Fulfilled ?r \<and>
                  settlements (foldl (onEvent sender addr) ?s' later) = [Resolve ?r] \<and>
                  written (foldl (onEvent sender addr) ?s' later) = written ?s' \<and>
                  step (foldl (onEvent sender addr) ?s' later) = quit)"
      by (elim conjE, intro conjI)
  qed
qed

text \<open>After the greeting, \<^verbatim>\<open>EHLO\<close> and \<^verbatim>\<open>MAIL FROM\<close> were accepted, the reply 450 to
  \<^verbatim>\<open>RCPT TO\<close> settles the session as a temporary failure, and the close that follows
  changes nothing.\<close>

theorem rcpt_reply_settles_live_session_witness:
  "step (runSession ''probe@x.y'' ''a@b.c'' acceptingServer) = rcpt_to \<and>
   \<not> isResolved (runSession ''probe@x.y'' ''a@b.c'' acceptingServer) \<and>
   trimTruthy ''450 busy'' \<and>
   replyCode ''450 busy'' = Some 450 \<and>
   runSession ''probe@x.y'' ''a@b.c'' (acceptingServer @ [EvData (''450 busy'' @ CRLF), EvClose]) =
     foldl (onEvent ''probe@x.y'' ''a@b.c'')
       (processLine ''probe@x.y'' ''a@b.c'' (runSession ''probe@x.y'' ''a@b.c'' acceptingServer)
          ''450 busy'') [EvClose] \<and>
   promiseOf (runSession ''probe@x.y'' ''a@b.c''
       (acceptingServer @ [EvData (''450 busy'' @ CRLF), EvClose])) =
     Fulfilled (rcptOutcome ''a@b.c'' ''450 busy'') \<and>
   rcptOutcome ''a@b.c'' ''450 busy'' =
     mkOutcome ''a@b.c'' False temporary_failure ''Temporary failure: 450 busy'' (Some ''450 busy'') \<and>
   written (runSession ''probe@x.y'' ''a@b.c''
       (acceptingServer @ [EvData (''450 busy'' @ CRLF), EvClose])) =
     [''EHLO localhost'' @ CRLF, ''MAIL FROM:<probe@x.y>'' @ CRLF, ''RCPT TO:<a@b.c>'' @ CRLF,
      ''QUIT'' @ CRLF]"
proof -
  let ?s = "runSession ''probe@x.y'' ''a@b.c'' acceptingServer"
  let ?s' = "processLine ''probe@x.y'' ''a@b.c'' ?s ''450 busy''"
  let ?all = "runSession ''probe@x.y'' ''a@b.c'' (acceptingServer @ [EvData (''450 busy'' @ CRLF), EvClose])"
  have h1: "step ?s = rcpt_to" by (simp add: session_defs acceptingServer_def)
  have h2: "\<not> isResolved ?s" by (simp add: session_defs acceptingServer_def)
  have h3: "trimTruthy ''450 busy''" by (simp add: trimTruthy_def isSpace_def)
  have h4: "replyCode ''450 busy'' = Some 450" by (simp add: session_defs)
  have w0: "written ?s = [''EHLO localhost'' @ CRLF, ''MAIL FROM:<probe@x.y>'' @ CRLF,
      ''RCPT TO:<a@b.c>'' @ CRLF]"
    by (simp add: session_defs acceptingServer_def)
  have run: "?all = foldl (onEvent ''probe@x.y'' ''a@b.c'') ?s' [EvClose]"
    by (simp add: session_defs acceptingServer_def)
  have val: "rcptOutcome ''a@b.c'' ''450 busy'' =
     mkOutcome ''a@b.c'' False temporary_failure ''Temporary failure: 450 busy'' (Some ''450 busy'')"
    by (simp add: rcptOutcome_def rcptStatus_def rcptMessage_def session_defs)
  note T = rcpt_reply_settles_live_session
    [of "''probe@x.y''" "''a@b.c''" acceptingServer "''450 busy''", unfolded Let_def, rule_format]
  have pre: "step ?s = rcpt_to \<and> \<not> isResolved ?s \<and> trimTruthy ''450 busy''"
    using h1 h2 h3 by (intro conjI)
  from T[OF pre] have w: "written ?s' = written ?s @ [''QUIT'' @ CRLF]"
    and later: "\<forall>later. promiseOf (foldl (onEvent ''probe@x.y'' ''a@b.c'') ?s' later) =
                  Fulfilled (rcptOutcome ''a@b.c'' ''450 busy'') \<and>
                settlements (foldl (onEvent ''probe@x.y'' ''a@b.c'') ?s' later) =
                  [Resolve (rcptOutcome ''a@b.c'' ''450 busy'')] \<and>
                written (foldl (onEvent ''probe@x.y'' ''a@b.c'') ?s' later) = written ?s' \<and>
                step (foldl (onEvent ''probe@x.y'' ''a@b.c'') ?s' later) = quit"
    by simp_all
  from later[rule_format, of "[EvClose]"]
  have p: "promiseOf ?all = Fulfilled (rcptOutcome ''a@b.c'' ''450 busy'')"
    and w2: "written ?all = written ?s'"
    unfolding run by simp_all
  have wr: "written ?all = [''EHLO localhost'' @ CRLF, ''MAIL FROM:<probe@x.y>'' @ CRLF,
      ''RCPT TO:<a@b.c>'' @ CRLF, ''QUIT'' @ CRLF]"
    unfolding w2 w w0 by simp
  from h1 h2 h3 h4 run p val wr show ?thesis by (intro conjI)
qed

section \<open>Properties of the orchestrator\<close>

lemma rxTest_char: "rxTest (RxChar c # r) s = (\<exists>t. s = c # t \<and> rxTest r t)"
  by (cases s) auto

lemma rxTest_plus:
  "rxTest (RxPlusNot cls # r) s =
     (\<exists>a t. s = a @ t \<and> a \<noteq> [] \<and> (\<forall>x\<in>set a. \<not> cls x) \<and> rxTest r t)"
proof (induction s)
  case Nil
  show ?case by simp
next
  case (Cons x xs)
  show ?case
  proof
    assume l: "rxTest (RxPlusNot cls # r) (x # xs)"
    then have nx: "\<not> cls x" and d: "rxTest (RxPlusNot cls # r) xs \<or> rxTest r xs" by simp_all
    from d show "\<exists>a t. x # xs = a @ t \<and> a \<noteq> [] \<and> (\<forall>x\<in>set a. \<not> cls x) \<and> rxTest r t"
    proof
      assume "rxTest (RxPlusNot cls # r) xs"
      with Cons.IH obtain a t where "xs = a @ t" "(\<forall>x\<in>set a. \<not> cls x)" "rxTest r t" by blast
      with nx have "x # xs = (x # a) @ t \<and> x # a \<noteq> [] \<and> (\<forall>y\<in>set (x # a). \<not> cls y) \<and> rxTest r t" by simp
      then show ?thesis by blast
    next
      assume "rxTest r xs"
      with nx have "x # xs = [x] @ xs \<and> [x] \<noteq> [] \<and> (\<forall>y\<in>set [x]. \<not> cls y) \<and> rxTest r xs" by simp
      then show ?thesis by blast
    qed
  next
    assume "\<exists>a t. x # xs = a @ t \<and> a \<noteq> [] \<and> (\<forall>x\<in>set a. \<not> cls x) \<and> rxTest r t"
    then obtain a t where e: "x # xs = a @ t" and ne: "a \<noteq> []" and c: "\<forall>x\<in>set a. \<not> cls x" and r: "rxTest r t" by blast
    from ne obtain y a' where a: "a = y # a'" by (cases a) auto
    with e have xy: "y = x" and xs: "xs = a' @ t" by simp_all
    from c a xy have nx: "\<not> cls x" by simp
    show "rxTest (RxPlusNot cls # r) (x # xs)"
    proof (cases "a' = []")
      case True
      with xs r nx show ?thesis by simp
    next
      case False
      with c a xs r have "\<exists>a t. xs = a @ t \<and> a \<noteq> [] \<and> (\<forall>x\<in>set a. \<not> cls x) \<and> rxTest r t" by auto
      with Cons.IH nx show ?thesis by simp
    qed
  qed
qed

lemma rx_tail: "rxTest [RxPlusNot cls] s = (s \<noteq> [] \<and> (\<forall>x\<in>set s. \<not> cls x))"
  unfolding rxTest_plus by simp


lemma valid_format_split:
  assumes "isValidEmailFormat addr"
  shows "\<exists>a b c. addr = a @ ''@'' @ b @ ''.'' @ c \<and> a \<noteq> [] \<and> b \<noteq> [] \<and> c \<noteq> [] \<and>
        (\<forall>x\<in>set (a @ b @ c). \<not> isSpace x \<and> x \<noteq> CHR ''@'')"
proof -
  let ?r1 = "[RxChar (CHR ''@''), RxPlusNot spaceOrAt, RxChar (CHR ''.''), RxPlusNot spaceOrAt]"
  let ?r2 = "[RxPlusNot spaceOrAt, RxChar (CHR ''.''), RxPlusNot spaceOrAt]"
  let ?r3 = "[RxChar (CHR ''.''), RxPlusNot spaceOrAt]"
  from assms have "rxTest (RxPlusNot spaceOrAt # ?r1) addr"
    by (simp only: isValidEmailFormat_def emailRegex_def)
  then have "\<exists>a t. addr = a @ t \<and> a \<noteq> [] \<and> (\<forall>x\<in>set a. \<not> spaceOrAt x) \<and> rxTest ?r1 t"
    by (simp only: rxTest_plus[of spaceOrAt ?r1 addr])
  then obtain a t1 where 1: "addr = a @ t1" "a \<noteq> []" "\<forall>x\<in>set a. \<not> spaceOrAt x"
    and r1: "rxTest ?r1 t1" by (elim exE conjE)
  from r1 have "\<exists>t. t1 = CHR ''@'' # t \<and> rxTest ?r2 t"
    by (simp only: rxTest_char[of "CHR ''@''" ?r2 t1])
  then obtain t2 where 2: "t1 = CHR ''@'' # t2" and r2: "rxTest ?r2 t2" by (elim exE conjE)
  from r2 have "\<exists>a t. t2 = a @ t \<and> a \<noteq> [] \<and> (\<forall>x\<in>set a. \<not> spaceOrAt x) \<and> rxTest ?r3 t"
    by (simp only: rxTest_plus[of spaceOrAt ?r3 t2])
  then obtain b t3 where 3: "t2 = b @ t3" "b \<noteq> []" "\<forall>x\<in>set b. \<not> spaceOrAt x"
    and r3: "rxTest ?r3 t3" by (elim exE conjE)
  from r3 have "\<exists>t. t3 = CHR ''.'' # t \<and> rxTest [RxPlusNot spaceOrAt] t"
    by (simp only: rxTest_char[of "CHR ''.''" "[RxPlusNot spaceOrAt]" t3])
  then obtain c where 4: "t3 = CHR ''.'' # c" and r4: "rxTest [RxPlusNot spaceOrAt] c"
    by (elim exE conjE)
  from r4 have "c \<noteq> [] \<and> (\<forall>x\<in>set c. \<not> spaceOrAt x)" using rx_tail[of spaceOrAt c] by (rule_tac iffD1)
  then have 5: "c \<noteq> []" "\<forall>x\<in>set c. \<not> spaceOrAt x" by (rule conjunct1, rule conjunct2)
  have e: "addr = a @ ''@'' @ b @ ''.'' @ c" unfolding 1 2 3 4 by simp
  have ok: "\<forall>x\<in>set (a @ b @ c). \<not> isSpace x \<and> x \<noteq> CHR ''@''"
    using 1(3) 3(3) 5(2) unfolding spaceOrAt_def by auto
  from e 1(2) 3(2) 5(1) ok show ?thesis by (intro exI conjI)
qed
lemma split_valid_format:
  assumes e: "addr = a @ ''@'' @ b @ ''.'' @ c" and ne: "a \<noteq> []" "b \<noteq> []" "c \<noteq> []"
    and ok: "\<forall>x\<in>set (a @ b @ c). \<not> isSpace x \<and> x \<noteq> CHR ''@''"
  shows "isValidEmailFormat addr"
proof -
  let ?r1 = "[RxChar (CHR ''@''), RxPlusNot spaceOrAt, RxChar (CHR ''.''), RxPlusNot spaceOrAt]"
  let ?r2 = "[RxPlusNot spaceOrAt, RxChar (CHR ''.''), RxPlusNot spaceOrAt]"
  let ?r3 = "[RxChar (CHR ''.''), RxPlusNot spaceOrAt]"
  have oa: "\<forall>x\<in>set a. \<not> spaceOrAt x" and ob: "\<forall>x\<in>set b. \<not> spaceOrAt x"
    and oc: "\<forall>x\<in>set c. \<not> spaceOrAt x" using ok unfolding spaceOrAt_def by auto
  have r4: "rxTest [RxPlusNot spaceOrAt] c" using ne(3) oc rx_tail[of spaceOrAt c] by (intro iffD2[OF rx_tail] conjI)
  have r3: "rxTest ?r3 (CHR ''.'' # c)" using r4 by simp
  have "\<exists>x t. b @ CHR ''.'' # c = x @ t \<and> x \<noteq> [] \<and> (\<forall>y\<in>set x. \<not> spaceOrAt y) \<and> rxTest ?r3 t"
    using ne(2) ob r3 by (intro exI[of _ b] exI[of _ "CHR ''.'' # c"]) simp
  then have r2: "rxTest ?r2 (b @ CHR ''.'' # c)"
    by (simp only: rxTest_plus[of spaceOrAt ?r3])
  have r1: "rxTest ?r1 (CHR ''@'' # b @ CHR ''.'' # c)" using r2 by simp
  have "\<exists>x t. a @ CHR ''@'' # b @ CHR ''.'' # c = x @ t \<and> x \<noteq> [] \<and> (\<forall>y\<in>set x. \<not> spaceOrAt y) \<and> rxTest ?r1 t"
    using ne(1) oa r1 by (intro exI[of _ a] exI[of _ "CHR ''@'' # b @ CHR ''.'' # c"]) simp
  then have "rxTest (RxPlusNot spaceOrAt # ?r1) (a @ CHR ''@'' # b @ CHR ''.'' # c)"
    by (simp only: rxTest_plus[of spaceOrAt ?r1])
  then show ?thesis unfolding isValidEmailFormat_def emailRegex_def e by simp
qed

lemma valid_format_iff:
  "isValidEmailFormat addr =
     (\<exists>a b c. addr = a @ ''@'' @ b @ ''.'' @ c \<and> a \<noteq> [] \<and> b \<noteq> [] \<and> c \<noteq> [] \<and>
        (\<forall>x\<in>set (a @ b @ c). \<not> isSpace x \<and> x \<noteq> CHR ''@''))"
proof (rule iffI)
  assume "isValidEmailFormat addr"
  then show "\<exists>a b c. addr = a @ ''@'' @ b @ ''.'' @ c \<and> a \<noteq> [] \<and> b \<noteq> [] \<and> c \<noteq> [] \<and>
        (\<forall>x\<in>set (a @ b @ c). \<not> isSpace x \<and> x \<noteq> CHR ''@'')" by (rule valid_format_split)
next
  assume "\<exists>a b c. addr = a @ ''@'' @ b @ ''.'' @ c \<and> a \<noteq> [] \<and> b \<noteq> [] \<and> c \<noteq> [] \<and>
        (\<forall>x\<in>set (a @ b @ c). \<not> isSpace x \<and> x \<noteq> CHR ''@'')"
  then obtain a b c where "addr = a @ ''@'' @ b @ ''.'' @ c" "a \<noteq> []" "b \<noteq> []" "c \<noteq> []"
        "\<forall>x\<in>set (a @ b @ c). \<not> isSpace x \<and> x \<noteq> CHR ''@''" by (elim exE conjE)
  then show "isValidEmailFormat addr" by (rule split_valid_format)
qed

lemma splitAt_last: "\<forall>x\<in>set a. x \<noteq> CHR ''@'' \<Longrightarrow> splitAt acc a = [acc @ a]"
  by (induction a arbitrary: acc) simp_all

lemma splitAt_first:
  "\<forall>x\<in>set a. x \<noteq> CHR ''@'' \<Longrightarrow> splitAt acc (a @ CHR ''@'' # t) = (acc @ a) # splitAt [] t"
  by (induction a arbitrary: acc) simp_all

lemma valid_format_domain:
  assumes "isValidEmailFormat addr"
  shows "\<exists>b c. domainOf addr = Some (b @ ''.'' @ c)"
proof -
  from valid_format_split[OF assms] obtain a b c where e: "addr = a @ ''@'' @ b @ ''.'' @ c"
     and n: "\<forall>x\<in>set (a @ b @ c). \<not> isSpace x \<and> x \<noteq> CHR ''@''"
    by (elim exE conjE)
  have 1: "\<forall>x\<in>set a. x \<noteq> CHR ''@''" using n by simp
  have 2: "\<forall>x\<in>set (b @ ''.'' @ c). x \<noteq> CHR ''@''" using n by simp
  have "splitAt [] addr = a # splitAt [] (b @ ''.'' @ c)"
    unfolding e using splitAt_first[OF 1, of "[]" "b @ ''.'' @ c"] by simp
  also have "splitAt [] (b @ ''.'' @ c) = [b @ ''.'' @ c]"
    using splitAt_last[OF 2, of "[]"] by simp
  finally have "domainOf addr = Some (b @ ''.'' @ c)" by (simp add: domainOf_def)
  then show ?thesis by (intro exI)
qed

lemma probe_accesses:
  "verifyWithMxRecord rt cfg addr h s = (p, s1) \<Longrightarrow> accesses s1 = accesses s @ [Connect h]"
  by (auto simp: verifyWithMxRecord_def split: prod.splits)

lemma try_conclusive:
  "i < length mxs \<Longrightarrow> \<forall>j<i. inconclusive (probeAll rt cfg addr mxs s ! j) \<Longrightarrow>
   probeAll rt cfg addr mxs s ! i = Fulfilled r \<Longrightarrow> status r \<noteq> connection_failed \<Longrightarrow>
   fst (tryMxRecords rt cfg addr mxs s) = Fulfilled r \<and>
   accesses (snd (tryMxRecords rt cfg addr mxs s)) =
     accesses s @ map (\<lambda>mx. Connect (exchange mx)) (take (Suc i) mxs)"
proof (induction mxs arbitrary: s i)
  case Nil
  then show ?case by simp
next
  case (Cons mx rest)
  obtain p s1 where v: "verifyWithMxRecord rt cfg addr (exchange mx) s = (p, s1)"
    by (cases "verifyWithMxRecord rt cfg addr (exchange mx) s")
  note acc = probe_accesses[OF v]
  show ?case
  proof (cases i)
    case 0
    with Cons.prems v have "p = Fulfilled r" by simp
    with v Cons.prems(4) acc 0 show ?thesis by simp
  next
    case (Suc k)
    with Cons.prems v have inc: "inconclusive p" by force
    have k: "k < length rest" using Cons.prems(1) Suc by simp
    have 2: "\<forall>j<k. inconclusive (probeAll rt cfg addr rest s1 ! j)"
      using Cons.prems(2) v Suc by force
    have 3: "probeAll rt cfg addr rest s1 ! k = Fulfilled r"
      using Cons.prems(3) v Suc by simp
    note ih = Cons.IH[OF k 2 3 Cons.prems(4)]
    have "tryMxRecords rt cfg addr (mx # rest) s = tryMxRecords rt cfg addr rest s1"
      using inc v by (cases p) (simp_all add: inconclusive_def)
    with ih acc Suc show ?thesis by simp
  qed
qed

lemma try_exhausted:
  "\<forall>j<length mxs. inconclusive (probeAll rt cfg addr mxs s ! j) \<Longrightarrow>
   fst (tryMxRecords rt cfg addr mxs s) =
     Fulfilled (mkOutcome addr False connection_failed ''Could not connect to any mail server'' None) \<and>
   accesses (snd (tryMxRecords rt cfg addr mxs s)) =
     accesses s @ map (\<lambda>mx. Connect (exchange mx)) mxs"
proof (induction mxs arbitrary: s)
  case Nil
  then show ?case by simp
next
  case (Cons mx rest)
  obtain p s1 where v: "verifyWithMxRecord rt cfg addr (exchange mx) s = (p, s1)"
    by (cases "verifyWithMxRecord rt cfg addr (exchange mx) s")
  note acc = probe_accesses[OF v]
  from Cons.prems v have inc: "inconclusive p" by force
  have 2: "\<forall>j<length rest. inconclusive (probeAll rt cfg addr rest s1 ! j)"
    using Cons.prems v by force
  note ih = Cons.IH[OF 2]
  have "tryMxRecords rt cfg addr (mx # rest) s = tryMxRecords rt cfg addr rest s1"
    using inc v by (cases p) (simp_all add: inconclusive_def)
  with ih acc show ?case by simp
qed

lemma verifyEmail_invalid:
  "\<not> isValidEmailFormat addr \<Longrightarrow> verifyEmail rt cfg addr s =
     (Fulfilled (mkOutcome addr False invalid_format ''Invalid email format'' None), s)"
  by (simp add: verifyEmail_def)

lemma sort_key_Nil: "(sort_key f xs = []) = (xs = [])"
  using length_sort[of f xs] by (metis length_0_conv)

lemma verifyEmail_resolved:
  assumes v: "isValidEmailFormat addr" and d: "domainOf addr = Some d"
    and r: "resolveMx rt d (world s) = (answer, w)"
  shows "verifyEmail rt cfg addr s =
     (let s1 = s\<lparr>world := w, accesses := accesses s @ [DnsLookup d]\<rparr>;
          mxs = (case answer of Inl e \<Rightarrow> [] | Inr records \<Rightarrow> sort_key priority records)
      in if mxs = []
         then (Fulfilled (mkOutcome addr False no_mx_record ''No MX record found for domain'' None), s1)
         else tryMxRecords rt cfg addr mxs s1)"
  using v d r by (cases answer) (simp_all add: verifyEmail_def getMxRecords_def Let_def sort_key_Nil)

text \<open>
  Claim C3.  The format test is the pattern of the specification.  An address that fails
  it gets \<open>invalid_format\<close> and the state, with its world and its log of accesses, is
  untouched.  An address that passes has a domain; the answer of the resolver for it is
  sorted by priority; with no record the outcome is \<open>no_mx_record\<close>; otherwise the hosts
  are connected to in that order, the first probe that is fulfilled with a status other
  than \<open>connection_failed\<close> is the outcome and no later host is contacted, and when every
  probe is rejected or \<open>connection_failed\<close> the outcome is \<open>connection_failed\<close>.
\<close>

theorem verifyEmail_steps:
  "(isValidEmailFormat addr =
      (\<exists>a b c. addr = a @ ''@'' @ b @ ''.'' @ c \<and> a \<noteq> [] \<and> b \<noteq> [] \<and> c \<noteq> [] \<and>
         (\<forall>x\<in>set (a @ b @ c). \<not> isSpace x \<and> x \<noteq> CHR ''@''))) \<and>
   (\<not> isValidEmailFormat addr \<longrightarrow>
      verifyEmail rt cfg addr s =
        (Fulfilled (mkOutcome addr False invalid_format ''Invalid email format'' None), s)) \<and>
   (isValidEmailFormat addr \<longrightarrow> (\<exists>d'. domainOf addr = Some d')) \<and>
   (isValidEmailFormat addr \<and> domainOf addr = Some d \<and> resolveMx rt d (world s) = (answer, w) \<longrightarrow>
      (let s1 = s\<lparr>world := w, accesses := accesses s @ [DnsLookup d]\<rparr>;
           mxs = (case answer of Inl e \<Rightarrow> [] | Inr records \<Rightarrow> sort_key priority records);
           ps = probeAll rt cfg addr mxs s1;
           res = verifyEmail rt cfg addr s
       in sorted (map priority mxs) \<and>
          (mxs = [] \<longrightarrow>
             res = (Fulfilled (mkOutcome addr False no_mx_record
                      ''No MX record found for domain'' None), s1)) \<and>
          (i < length mxs \<and> (\<forall>j<i. inconclusive (ps ! j)) \<and>
           ps ! i = Fulfilled r \<and> status r \<noteq> connection_failed \<longrightarrow>
             fst res = Fulfilled r \<and>
             accesses (snd res) =
               accesses s1 @ map (\<lambda>mx. Connect (exchange mx)) (take (Suc i) mxs)) \<and>
          (mxs \<noteq> [] \<and> (\<forall>j<length mxs. inconclusive (ps ! j)) \<longrightarrow>
             fst res = Fulfilled (mkOutcome addr False connection_failed
                         ''Could not connect to any mail server'' None) \<and>
             accesses (snd res) = accesses s1 @ map (\<lambda>mx. Connect (exchange mx)) mxs)))"
proof (intro conjI impI)
  show "isValidEmailFormat addr =
      (\<exists>a b c. addr = a @ ''@'' @ b @ ''.'' @ c \<and> a \<noteq> [] \<and> b \<noteq> [] \<and> c \<noteq> [] \<and>
         (\<forall>x\<in>set (a @ b @ c). \<not> isSpace x \<and> x \<noteq> CHR ''@''))"
    by (rule valid_format_iff)
next
  assume "\<not> isValidEmailFormat addr"
  then show "verifyEmail rt cfg addr s =
        (Fulfilled (mkOutcome addr False invalid_format ''Invalid email format'' None), s)"
    by (rule verifyEmail_invalid)
next
  assume v: "isValidEmailFormat addr"
  from valid_format_domain[OF v] obtain b c where "domainOf addr = Some (b @ ''.'' @ c)"
    by (elim exE)
  then show "\<exists>d'. domainOf addr = Some d'" by (rule exI)
next
  assume "isValidEmailFormat addr \<and> domainOf addr = Some d \<and> resolveMx rt d (world s) = (answer, w)"
  then have v: "isValidEmailFormat addr" and d: "domainOf addr = Some d"
    and r: "resolveMx rt d (world s) = (answer, w)" by simp_all
  define s1 where "s1 = s\<lparr>world := w, accesses := accesses s @ [DnsLookup d]\<rparr>"
  define mxs where "mxs = (case answer of Inl e \<Rightarrow> [] | Inr records \<Rightarrow> sort_key priority records)"
  have res: "verifyEmail rt cfg addr s =
     (if mxs = []
      then (Fulfilled (mkOutcome addr False no_mx_record ''No MX record found for domain'' None), s1)
      else tryMxRecords rt cfg addr mxs s1)"
    using verifyEmail_resolved[OF v d r, of cfg] by (simp add: Let_def s1_def mxs_def)
  have srt: "sorted (map priority mxs)" unfolding mxs_def by (cases answer) simp_all
  have a: "mxs = [] \<longrightarrow> verifyEmail rt cfg addr s =
      (Fulfilled (mkOutcome addr False no_mx_record ''No MX record found for domain'' None), s1)"
    using res by simp
  have b: "i < length mxs \<and> (\<forall>j<i. inconclusive (probeAll rt cfg addr mxs s1 ! j)) \<and>
      probeAll rt cfg addr mxs s1 ! i = Fulfilled r \<and> status r \<noteq> connection_failed \<longrightarrow>
      fst (verifyEmail rt cfg addr s) = Fulfilled r \<and>
      accesses (snd (verifyEmail rt cfg addr s)) =
        accesses s1 @ map (\<lambda>mx. Connect (exchange mx)) (take (Suc i) mxs)"
  proof
    assume p: "i < length mxs \<and> (\<forall>j<i. inconclusive (probeAll rt cfg addr mxs s1 ! j)) \<and>
      probeAll rt cfg addr mxs s1 ! i = Fulfilled r \<and> status r \<noteq> connection_failed"
    then have "mxs \<noteq> []" by auto
    with res have "verifyEmail rt cfg addr s = tryMxRecords rt cfg addr mxs s1" by simp
    with try_conclusive[of i mxs rt cfg addr s1 r] p
    show "fst (verifyEmail rt cfg addr s) = Fulfilled r \<and>
      accesses (snd (verifyEmail rt cfg addr s)) =
        accesses s1 @ map (\<lambda>mx. Connect (exchange mx)) (take (Suc i) mxs)" by simp
  qed
  have c: "mxs \<noteq> [] \<and> (\<forall>j<length mxs. inconclusive (probeAll rt cfg addr mxs s1 ! j)) \<longrightarrow>
      fst (verifyEmail rt cfg addr s) = Fulfilled (mkOutcome addr False connection_failed
                             ''Could not connect to any mail server'' None) \<and>
      accesses (snd (verifyEmail rt cfg addr s)) = accesses s1 @ map (\<lambda>mx. Connect (exchange mx)) mxs"
    using res try_exhausted[of mxs rt cfg addr s1] by simp
  show "(let s1 = s\<lparr>world := w, accesses := accesses s @ [DnsLookup d]\<rparr>;
           mxs = (case answer of Inl e \<Rightarrow> [] | Inr records \<Rightarrow> sort_key priority records);
           ps = probeAll rt cfg addr mxs s1;
           res = verifyEmail rt cfg addr s
       in sorted (map priority mxs) \<and>
          (mxs = [] \<longrightarrow>
             res = (Fulfilled (mkOutcome addr False no_mx_record
                      ''No MX record found for domain'' None), s1)) \<and>
          (i < length mxs \<and> (\<forall>j<i. inconclusive (ps ! j)) \<and>
           ps ! i = Fulfilled r \<and> status r \<noteq> connection_failed \<longrightarrow>
             fst res = Fulfilled r \<and>
             accesses (snd res) =
               accesses s1 @ map (\<lambda>mx. Connect (exchange mx)) (take (Suc i) mxs)) \<and>
          (mxs \<noteq> [] \<and> (\<forall>j<length mxs. inconclusive (ps ! j)) \<longrightarrow>
             fst res = Fulfilled (mkOutcome addr False connection_failed
                         ''Could not connect to any mail server'' None) \<and>
             accesses (snd res) = accesses s1 @ map (\<lambda>mx. Connect (exchange mx)) mxs))"
    unfolding Let_def s1_def[symmetric] mxs_def[symmetric]
    using srt a b c by (intro conjI)
qed

lemmas format_defs = isValidEmailFormat_def emailRegex_def spaceOrAt_def isSpace_def domainOf_def

lemmas scripted_defs = scriptedRuntime_def freshVerifier_def exampleConfig_def acceptingServer_def
  verifyWithMxRecord_def inconclusive_def

text \<open>An address without \<open>@\<close>; and an address whose preferred host refuses the connection
  and whose second host answers 450.\<close>

theorem verifyEmail_steps_witness:
  "\<not> isValidEmailFormat ''not-an-email'' \<and>
   verifyEmail scriptedRuntime exampleConfig ''not-an-email'' freshVerifier =
     (Fulfilled (mkOutcome ''not-an-email'' False invalid_format ''Invalid email format'' None),
      freshVerifier) \<and>
   isValidEmailFormat ''a@b.c'' \<and>
   fst (verifyEmail scriptedRuntime exampleConfig ''a@b.c'' freshVerifier) =
     Fulfilled (mkOutcome ''a@b.c'' False temporary_failure
       ''Temporary failure: 450 try again later'' (Some ''450 try again later'')) \<and>
   accesses (snd (verifyEmail scriptedRuntime exampleConfig ''a@b.c'' freshVerifier)) =
     [DnsLookup ''b.c'', Connect ''mx1.b.c'', Connect ''mx2.b.c'']"
proof -
  let ?rt = scriptedRuntime and ?cfg = exampleConfig and ?s = freshVerifier
  let ?r = "mkOutcome ''a@b.c'' False temporary_failure
       ''Temporary failure: 450 try again later'' (Some ''450 try again later'')"
  let ?mxs = "[\<lparr>exchange = ''mx1.b.c'', priority = 10\<rparr>, \<lparr>exchange = ''mx2.b.c'', priority = 20\<rparr>]"
  let ?s1 = "?s\<lparr>world := 20, accesses := accesses ?s @ [DnsLookup ''b.c'']\<rparr>"
  have bad: "\<not> isValidEmailFormat ''not-an-email''" by (simp add: format_defs)
  have good: "isValidEmailFormat ''a@b.c''" by (simp add: format_defs)
  have dom: "domainOf ''a@b.c'' = Some ''b.c''" by (simp add: format_defs)
  have dns: "resolveMx ?rt ''b.c'' (world ?s) =
     (Inr [\<lparr>exchange = ''mx2.b.c'', priority = 20\<rparr>, \<lparr>exchange = ''mx1.b.c'', priority = 10\<rparr>], 20)"
    by (simp add: scripted_defs)
  have ps: "probeAll ?rt ?cfg ''a@b.c'' ?mxs ?s1 = [Rejected ''connect ECONNREFUSED'', Fulfilled ?r]"
    by (simp add: scripted_defs session_defs)
  have 1: "verifyEmail ?rt ?cfg ''not-an-email'' ?s =
     (Fulfilled (mkOutcome ''not-an-email'' False invalid_format ''Invalid email format'' None), ?s)"
    using verifyEmail_steps[of "''not-an-email''" ?rt ?cfg ?s] bad by simp
  have 2: "fst (verifyEmail ?rt ?cfg ''a@b.c'' ?s) = Fulfilled ?r \<and>
     accesses (snd (verifyEmail ?rt ?cfg ''a@b.c'' ?s)) = accesses ?s1 @ [Connect ''mx1.b.c'', Connect ''mx2.b.c'']"
    using verifyEmail_steps[of "''a@b.c''" ?rt ?cfg ?s "''b.c''"
        "Inr [\<lparr>exchange = ''mx2.b.c'', priority = 20\<rparr>, \<lparr>exchange = ''mx1.b.c'', priority = 10\<rparr>]" 20 1 ?r]
      good dom dns
    by (simp add: Let_def ps inconclusive_def mkOutcome_def del: probeAll.simps)
  from bad good 1 2 show ?thesis by (simp add: freshVerifier_def)
qed

text \<open>
  Claim C9.  When the lookup for a domain fails, \<^verbatim>\<open>getMxRecords\<close> returns \<^verbatim>\<open>null\<close>, a value
  and not an exception, and \<^verbatim>\<open>verifyEmail\<close> of an address of that domain ends with
  \<open>no_mx_record\<close> without connecting to any host.
\<close>

theorem failed_lookup_gives_no_mx_record:
  "resolveMx rt d (world s) = (Inl err, w) \<longrightarrow>
     getMxRecords rt (Some d) s = (None, s\<lparr>world := w, accesses := accesses s @ [DnsLookup d]\<rparr>) \<and>
     (isValidEmailFormat addr \<and> domainOf addr = Some d \<longrightarrow>
        verifyEmail rt cfg addr s =
          (Fulfilled (mkOutcome addr False no_mx_record ''No MX record found for domain'' None),
           s\<lparr>world := w, accesses := accesses s @ [DnsLookup d]\<rparr>))"
  by (simp add: getMxRecords_def verifyEmail_def)

text \<open>A domain that the scripted resolver does not know.\<close>

theorem failed_lookup_gives_no_mx_record_witness:
  "resolveMx scriptedRuntime ''nowhere.example'' (world freshVerifier) = (Inl ''queryMx ENOTFOUND'', 20) \<and>
   isValidEmailFormat ''user@nowhere.example'' \<and>
   domainOf ''user@nowhere.example'' = Some ''nowhere.example'' \<and>
   getMxRecords scriptedRuntime (Some ''nowhere.example'') freshVerifier =
     (None, freshVerifier\<lparr>world := 20, accesses := [DnsLookup ''nowhere.example'']\<rparr>) \<and>
   verifyEmail scriptedRuntime exampleConfig ''user@nowhere.example'' freshVerifier =
     (Fulfilled (mkOutcome ''user@nowhere.example'' False no_mx_record
        ''No MX record found for domain'' None),
      freshVerifier\<lparr>world := 20, accesses := [DnsLookup ''nowhere.example'']\<rparr>)"
proof -
  have 1: "resolveMx scriptedRuntime ''nowhere.example'' (world freshVerifier) = (Inl ''queryMx ENOTFOUND'', 20)"
    by (simp add: scripted_defs)
  have 2: "isValidEmailFormat ''user@nowhere.example''" by (simp add: format_defs)
  have 3: "domainOf ''user@nowhere.example'' = Some ''nowhere.example''" by (simp add: format_defs)
  have 4: "accesses freshVerifier = []" by (simp add: freshVerifier_def)
  from failed_lookup_gives_no_mx_record
    [of scriptedRuntime "''nowhere.example''" freshVerifier "''queryMx ENOTFOUND''" 20
        "''user@nowhere.example''" exampleConfig] 1 2 3 4
  show ?thesis by simp
qed

section \<open>Properties of the cache and the rate limiter\<close>

lemmas verifier_defs = verifyEmail_def getMxRecords_def verifyEmailAdvanced_def getFromCache_def
  addToCache_def checkRateLimit_def wait_def

text \<open>
  Claim C5.  With an entry for the address: while \<open>now - timestamp < cacheExpiry\<close> the read
  returns the stored outcome, and the pipeline returns it with \<open>fromCache\<close> set and every
  other field as stored, leaving the state as it was; once \<open>now - timestamp \<ge> cacheExpiry\<close>
  the read deletes the entry and reports nothing, and the pipeline goes on exactly as it
  does from the state without the entry.
\<close>

theorem cache_read_within_and_after_ttl:
  "cache s addr = Some entry \<longrightarrow>
     (now rt (world s) - timestamp entry < cacheExpiry cfg \<longrightarrow>
        getFromCache rt cfg addr s = (Some (result entry), s) \<and>
        verifyEmailAdvanced rt cfg addr s = (Fulfilled ((result entry)\<lparr>fromCache := True\<rparr>), s) \<and>
        (let r = result entry; r' = (result entry)\<lparr>fromCache := True\<rparr> in
           fromCache r' \<and> email r' = email r \<and> isValid r' = isValid r \<and> status r' = status r \<and>
           message r' = message r \<and> smtpResponse r' = smtpResponse r)) \<and>
     (now rt (world s) - timestamp entry \<ge> cacheExpiry cfg \<longrightarrow>
        getFromCache rt cfg addr s = (None, s\<lparr>cache := (cache s)(addr := None)\<rparr>) \<and>
        cache (snd (getFromCache rt cfg addr s)) addr = None \<and>
        verifyEmailAdvanced rt cfg addr s =
          verifyEmailAdvanced rt cfg addr (s\<lparr>cache := (cache s)(addr := None)\<rparr>))"
  by (simp add: getFromCache_def verifyEmailAdvanced_def Let_def)

text \<open>An entry of age 1000 ms and an entry of age 3600000 ms, with a time to live of
  3600000 ms.\<close>

theorem cache_read_within_and_after_ttl_witness:
  "cache (cachedVerifier 1000) ''a@b.c'' = Some \<lparr>result = busyOutcome, timestamp = 0\<rparr> \<and>
   now scriptedRuntime (world (cachedVerifier 1000)) - 0 < cacheExpiry exampleConfig \<and>
   verifyEmailAdvanced scriptedRuntime exampleConfig ''a@b.c'' (cachedVerifier 1000) =
     (Fulfilled (busyOutcome\<lparr>fromCache := True\<rparr>), cachedVerifier 1000) \<and>
   cache (cachedVerifier 3600000) ''a@b.c'' = Some \<lparr>result = busyOutcome, timestamp = 0\<rparr> \<and>
   now scriptedRuntime (world (cachedVerifier 3600000)) - 0 \<ge> cacheExpiry exampleConfig \<and>
   getFromCache scriptedRuntime exampleConfig ''a@b.c'' (cachedVerifier 3600000) =
     (None, (cachedVerifier 3600000)\<lparr>cache := Map.empty\<rparr>)"
proof -
  have c: "\<And>t. cache (cachedVerifier t) ''a@b.c'' = Some \<lparr>result = busyOutcome, timestamp = 0\<rparr>"
    by (simp add: cachedVerifier_def)
  have e: "\<And>t. (cachedVerifier t)\<lparr>cache := (cache (cachedVerifier t))(''a@b.c'' := None)\<rparr> =
     (cachedVerifier t)\<lparr>cache := Map.empty\<rparr>"
    by (simp add: cachedVerifier_def)
  have 1: "now scriptedRuntime (world (cachedVerifier 1000)) - 0 < cacheExpiry exampleConfig"
    by (simp add: cachedVerifier_def scripted_defs)
  have 2: "now scriptedRuntime (world (cachedVerifier 3600000)) - 0 \<ge> cacheExpiry exampleConfig"
    by (simp add: cachedVerifier_def scripted_defs)
  from cache_read_within_and_after_ttl
    [of "cachedVerifier 1000" "''a@b.c''" "\<lparr>result = busyOutcome, timestamp = 0\<rparr>"
        scriptedRuntime exampleConfig] c 1
  have 3: "verifyEmailAdvanced scriptedRuntime exampleConfig ''a@b.c'' (cachedVerifier 1000) =
     (Fulfilled (busyOutcome\<lparr>fromCache := True\<rparr>), cachedVerifier 1000)"
    by simp
  from cache_read_within_and_after_ttl
    [of "cachedVerifier 3600000" "''a@b.c''" "\<lparr>result = busyOutcome, timestamp = 0\<rparr>"
        scriptedRuntime exampleConfig] c 2
  have 4: "getFromCache scriptedRuntime exampleConfig ''a@b.c'' (cachedVerifier 3600000) =
     (None, (cachedVerifier 3600000)\<lparr>cache := Map.empty\<rparr>)"
    unfolding e[symmetric] by simp
  from c 1 2 3 4 show ?thesis by simp
qed

lemma check_step:
  "checkRateLimit rt cfg domain s =
     (let t = now rt (world s);
          pruned = filter (\<lambda>ts. t - ts < rateLimitWindow cfg) (requestsOf s domain)
      in if maxRequestsPerDomain cfg \<le> int (length pruned) then (False, s)
         else (True, s\<lparr>rateLimiter := (rateLimiter s)(domain \<mapsto> pruned @ [t])\<rparr>))"
  by (simp add: checkRateLimit_def requestsOf_def Let_def)

lemma acquisitions_within:
  "0 < rateLimitWindow cfg \<Longrightarrow>
   sorted_wrt (\<lambda>a b. now rt b - now rt a < rateLimitWindow cfg) ws \<Longrightarrow>
   \<forall>ts\<in>set (requestsOf s domain). \<forall>w\<in>set ws. now rt w - ts < rateLimitWindow cfg \<Longrightarrow>
   fst (acquisitions rt cfg domain ws s) =
     map (\<lambda>k. int (length (requestsOf s domain) + k) < maxRequestsPerDomain cfg) [0..<length ws]"
proof (induction ws arbitrary: s)
  case Nil
  show ?case by simp
next
  case (Cons w ws)
  let ?s0 = "s\<lparr>world := w\<rparr>"
  let ?reqs = "requestsOf s domain"
  have keep: "filter (\<lambda>ts. now rt w - ts < rateLimitWindow cfg) ?reqs = ?reqs"
    using Cons.prems(3) by (simp add: filter_id_conv)
  have r0: "requestsOf ?s0 domain = ?reqs" by (simp add: requestsOf_def)
  obtain ok s1 where c: "checkRateLimit rt cfg domain ?s0 = (ok, s1)"
    by (cases "checkRateLimit rt cfg domain ?s0")
  have sw: "sorted_wrt (\<lambda>a b. now rt b - now rt a < rateLimitWindow cfg) ws"
    and first: "\<forall>w'\<in>set ws. now rt w' - now rt w < rateLimitWindow cfg"
    using Cons.prems(2) by simp_all
  show ?case
  proof (cases "maxRequestsPerDomain cfg \<le> int (length ?reqs)")
    case True
    then have ok: "ok = False" and s1: "s1 = ?s0"
      using c keep r0 by (simp_all add: check_step Let_def)
    have r1: "requestsOf s1 domain = ?reqs" using s1 r0 by simp
    have p3: "\<forall>ts\<in>set (requestsOf s1 domain). \<forall>w\<in>set ws. now rt w - ts < rateLimitWindow cfg"
      using Cons.prems(3) r1 by simp
    note ih = Cons.IH[OF Cons.prems(1) sw p3]
    have "\<forall>k. \<not> int (length ?reqs + k) < maxRequestsPerDomain cfg" using True by auto
    then show ?thesis using c ok ih r1 True
      by (simp add: split_beta map_replicate_const del: upt_Suc)
  next
    case False
    then have ok: "ok = True"
      and s1: "s1 = ?s0\<lparr>rateLimiter := (rateLimiter ?s0)(domain \<mapsto> ?reqs @ [now rt w])\<rparr>"
      using c keep r0 by (simp_all add: check_step Let_def)
    have r1: "requestsOf s1 domain = ?reqs @ [now rt w]" using s1 by (simp add: requestsOf_def)
    have p3: "\<forall>ts\<in>set (requestsOf s1 domain). \<forall>w\<in>set ws. now rt w - ts < rateLimitWindow cfg"
      using Cons.prems(3) first r1 by auto
    note ih = Cons.IH[OF Cons.prems(1) sw p3]
    have "map (\<lambda>k. int (length ?reqs + k) < maxRequestsPerDomain cfg) [0..<length (w # ws)] =
          (int (length ?reqs) < maxRequestsPerDomain cfg) #
          map (\<lambda>k. int (length (?reqs @ [now rt w]) + k) < maxRequestsPerDomain cfg) [0..<length ws]"
      by (simp add: upt_conv_Cons map_Suc_upt[symmetric] algebra_simps del: upt_Suc)
    then show ?thesis using c ok ih r1 False by (simp add: split_beta del: upt_Suc)
  qed
qed

lemma count_below: "length (filter id (map (\<lambda>k. int k < m) [0..<n])) = min n (nat m)"
  by (induction n) auto

text \<open>
  Claim C6.  A call prunes the requests of the domain whose age has reached the window
  (\<open>now - ts < rateLimitWindow\<close> is kept), refuses without recording anything when as many
  as \<open>maxRequestsPerDomain\<close> remain, and otherwise records the current time and admits.
  From an empty window, of calls that all fall within one window the first
  \<open>maxRequestsPerDomain\<close> are admitted and every later one is refused.  Once the window
  has elapsed for every recorded request, a call is admitted again.
\<close>

theorem rate_limiter_window:
  "checkRateLimit rt cfg domain s =
     (let t = now rt (world s);
          pruned = filter (\<lambda>ts. t - ts < rateLimitWindow cfg) (requestsOf s domain)
      in if maxRequestsPerDomain cfg \<le> int (length pruned) then (False, s)
         else (True, s\<lparr>rateLimiter := (rateLimiter s)(domain \<mapsto> pruned @ [t])\<rparr>)) \<and>
   (rateLimiter s domain = None \<and> 0 < rateLimitWindow cfg \<and>
    sorted_wrt (\<lambda>a b. now rt b - now rt a < rateLimitWindow cfg) ws \<longrightarrow>
      fst (acquisitions rt cfg domain ws s) =
        map (\<lambda>k. int k < maxRequestsPerDomain cfg) [0..<length ws] \<and>
      length (filter id (fst (acquisitions rt cfg domain ws s))) =
        min (length ws) (nat (maxRequestsPerDomain cfg))) \<and>
   (0 < maxRequestsPerDomain cfg \<and>
    (\<forall>ts\<in>set (requestsOf s domain). rateLimitWindow cfg \<le> now rt (world s) - ts) \<longrightarrow>
      checkRateLimit rt cfg domain s =
        (True, s\<lparr>rateLimiter := (rateLimiter s)(domain \<mapsto> [now rt (world s)])\<rparr>))"
proof (intro conjI impI)
  show "checkRateLimit rt cfg domain s =
     (let t = now rt (world s);
          pruned = filter (\<lambda>ts. t - ts < rateLimitWindow cfg) (requestsOf s domain)
      in if maxRequestsPerDomain cfg \<le> int (length pruned) then (False, s)
         else (True, s\<lparr>rateLimiter := (rateLimiter s)(domain \<mapsto> pruned @ [t])\<rparr>))"
    by (rule check_step)
next
  assume a: "rateLimiter s domain = None \<and> 0 < rateLimitWindow cfg \<and>
    sorted_wrt (\<lambda>a b. now rt b - now rt a < rateLimitWindow cfg) ws"
  then have e: "requestsOf s domain = []" by (simp add: requestsOf_def)
  have "fst (acquisitions rt cfg domain ws s) =
     map (\<lambda>k. int (length (requestsOf s domain) + k) < maxRequestsPerDomain cfg) [0..<length ws]"
    using a by (intro acquisitions_within) (simp_all add: e)
  then show r: "fst (acquisitions rt cfg domain ws s) =
        map (\<lambda>k. int k < maxRequestsPerDomain cfg) [0..<length ws]" by (simp add: e)
  show "length (filter id (fst (acquisitions rt cfg domain ws s))) =
        min (length ws) (nat (maxRequestsPerDomain cfg))"
    unfolding r by (rule count_below)
next
  assume a: "0 < maxRequestsPerDomain cfg \<and>
    (\<forall>ts\<in>set (requestsOf s domain). rateLimitWindow cfg \<le> now rt (world s) - ts)"
  then have "filter (\<lambda>ts. now rt (world s) - ts < rateLimitWindow cfg) (requestsOf s domain) = []"
    by (auto simp: filter_empty_conv)
  with a show "checkRateLimit rt cfg domain s =
        (True, s\<lparr>rateLimiter := (rateLimiter s)(domain \<mapsto> [now rt (world s)])\<rparr>)"
    by (simp add: check_step Let_def)
qed

lemmas limiter_defs = checkRateLimit_def requestsOf_def scriptedRuntime_def freshVerifier_def
  exampleConfig_def Let_def

text \<open>Six calls within 50 ms with a ceiling of five; and a call 60 s after five requests.\<close>

theorem rate_limiter_window_witness:
  "rateLimiter freshVerifier (Some ''b.c'') = None \<and> 0 < rateLimitWindow exampleConfig \<and>
   sorted_wrt (\<lambda>a b. now scriptedRuntime b - now scriptedRuntime a < rateLimitWindow exampleConfig)
     [0, 10, 20, 30, 40, 50] \<and>
   fst (acquisitions scriptedRuntime exampleConfig (Some ''b.c'') [0, 10, 20, 30, 40, 50] freshVerifier) =
     [True, True, True, True, True, False] \<and>
   0 < maxRequestsPerDomain exampleConfig \<and>
   requestsOf busyVerifier (Some ''b.c'') = [0, 10, 20, 30, 40] \<and>
   now scriptedRuntime (world busyVerifier) = 60040 \<and> rateLimitWindow exampleConfig = 60000 \<and>
   checkRateLimit scriptedRuntime exampleConfig (Some ''b.c'') busyVerifier =
     (True, busyVerifier\<lparr>rateLimiter := (rateLimiter busyVerifier)(Some ''b.c'' \<mapsto> [60040])\<rparr>)"
proof -
  let ?ws = "[0, 10, 20, 30, 40, 50] :: int list"
  have h1: "rateLimiter freshVerifier (Some ''b.c'') = None \<and> 0 < rateLimitWindow exampleConfig \<and>
     sorted_wrt (\<lambda>a b. now scriptedRuntime b - now scriptedRuntime a < rateLimitWindow exampleConfig) ?ws"
    by (simp add: limiter_defs)
  have m: "map (\<lambda>k. int k < maxRequestsPerDomain exampleConfig) [0..<length ?ws] =
     [True, True, True, True, True, False]"
    by (simp add: exampleConfig_def upt_conv_Cons)
  have h2: "0 < maxRequestsPerDomain exampleConfig \<and>
     (\<forall>ts\<in>set (requestsOf busyVerifier (Some ''b.c'')).
        rateLimitWindow exampleConfig \<le> now scriptedRuntime (world busyVerifier) - ts)"
    by (simp add: limiter_defs busyVerifier_def)
  have t: "now scriptedRuntime (world busyVerifier) = 60040"
    by (simp add: limiter_defs busyVerifier_def)
  note T1 = rate_limiter_window[of scriptedRuntime exampleConfig "Some ''b.c''" freshVerifier ?ws]
  from T1 have "rateLimiter freshVerifier (Some ''b.c'') = None \<and> 0 < rateLimitWindow exampleConfig \<and>
      sorted_wrt (\<lambda>a b. now scriptedRuntime b - now scriptedRuntime a < rateLimitWindow exampleConfig) ?ws \<longrightarrow>
      fst (acquisitions scriptedRuntime exampleConfig (Some ''b.c'') ?ws freshVerifier) =
        map (\<lambda>k. int k < maxRequestsPerDomain exampleConfig) [0..<length ?ws] \<and>
      length (filter id (fst (acquisitions scriptedRuntime exampleConfig (Some ''b.c'') ?ws freshVerifier))) =
        min (length ?ws) (nat (maxRequestsPerDomain exampleConfig))"
    by (rule conjunct2[THEN conjunct1])
  from this h1 have "fst (acquisitions scriptedRuntime exampleConfig (Some ''b.c'') ?ws freshVerifier) =
        map (\<lambda>k. int k < maxRequestsPerDomain exampleConfig) [0..<length ?ws] \<and>
      length (filter id (fst (acquisitions scriptedRuntime exampleConfig (Some ''b.c'') ?ws freshVerifier))) =
        min (length ?ws) (nat (maxRequestsPerDomain exampleConfig))"
    by (rule mp)
  then have 1: "fst (acquisitions scriptedRuntime exampleConfig (Some ''b.c'') ?ws freshVerifier) =
     [True, True, True, True, True, False]"
    unfolding m by (rule conjunct1)
  note T2 = rate_limiter_window[of scriptedRuntime exampleConfig "Some ''b.c''" busyVerifier "[]"]
  from T2 have "0 < maxRequestsPerDomain exampleConfig \<and>
     (\<forall>ts\<in>set (requestsOf busyVerifier (Some ''b.c'')).
        rateLimitWindow exampleConfig \<le> now scriptedRuntime (world busyVerifier) - ts) \<longrightarrow>
      checkRateLimit scriptedRuntime exampleConfig (Some ''b.c'') busyVerifier =
        (True, busyVerifier\<lparr>rateLimiter :=
           (rateLimiter busyVerifier)(Some ''b.c'' \<mapsto> [now scriptedRuntime (world busyVerifier)])\<rparr>)"
    by (rule conjunct2[THEN conjunct2])
  from this h2 have 2: "checkRateLimit scriptedRuntime exampleConfig (Some ''b.c'') busyVerifier =
        (True, busyVerifier\<lparr>rateLimiter :=
           (rateLimiter busyVerifier)(Some ''b.c'' \<mapsto> [now scriptedRuntime (world busyVerifier)])\<rparr>)"
    by (rule mp)
  have rq: "requestsOf busyVerifier (Some ''b.c'') = [0, 10, 20, 30, 40]"
    by (simp add: limiter_defs busyVerifier_def)
  have win: "rateLimitWindow exampleConfig = 60000" by (simp add: exampleConfig_def)
  from h1 h2 1 2[unfolded t] rq t win show ?thesis by (intro conjI) (elim conjE, assumption)+
qed

text \<open>
  Claim C10.  On a cache miss that the rate limiter admits, whatever outcome
  \<^verbatim>\<open>verifyEmail\<close> gives is the result and is stored under the address with the time of
  storing, failures included; a later call for the address in any state that holds this
  entry within the time to live, such as the retry that follows a delay shorter than the
  time to live, returns it with \<open>fromCache\<close> set and leaves the state, and so the log of
  accesses, untouched.  A refusal by the rate limiter stores nothing, and a cache hit
  changes nothing.
\<close>

theorem outcomes_are_cached_and_served:
  "(getFromCache rt cfg addr s = (None, s1) \<and>
    checkRateLimit rt cfg (domainOf addr) s1 = (True, s2) \<and>
    verifyEmail rt cfg addr s2 = (Fulfilled r, s3) \<longrightarrow>
      verifyEmailAdvanced rt cfg addr s = (Fulfilled r, addToCache rt addr r s3) \<and>
      cache (addToCache rt addr r s3) addr = Some \<lparr>result = r, timestamp = now rt (world s3)\<rparr> \<and>
      (cache s' addr = Some \<lparr>result = r, timestamp = now rt (world s3)\<rparr> \<and>
       now rt (world s') - now rt (world s3) < cacheExpiry cfg \<longrightarrow>
         verifyEmailAdvanced rt cfg addr s' = (Fulfilled (r\<lparr>fromCache := True\<rparr>), s')) \<and>
      (now rt (sleep rt ms (world s3)) - now rt (world s3) < cacheExpiry cfg \<longrightarrow>
         verifyEmailAdvanced rt cfg addr (wait rt ms (addToCache rt addr r s3)) =
           (Fulfilled (r\<lparr>fromCache := True\<rparr>), wait rt ms (addToCache rt addr r s3)))) \<and>
   (getFromCache rt cfg addr s = (None, s1) \<and>
    checkRateLimit rt cfg (domainOf addr) s1 = (False, s2) \<longrightarrow>
      verifyEmailAdvanced rt cfg addr s =
        (Fulfilled (mkOutcome addr False rate_limited ''Rate limit exceeded for domain'' None), s1) \<and>
      cache s1 addr = None) \<and>
   (getFromCache rt cfg addr s = (Some c, s1) \<longrightarrow>
      verifyEmailAdvanced rt cfg addr s = (Fulfilled (c\<lparr>fromCache := True\<rparr>), s) \<and> s1 = s)"
proof (intro conjI impI)
  assume a: "getFromCache rt cfg addr s = (None, s1) \<and>
    checkRateLimit rt cfg (domainOf addr) s1 = (True, s2) \<and>
    verifyEmail rt cfg addr s2 = (Fulfilled r, s3)"
  then show "verifyEmailAdvanced rt cfg addr s = (Fulfilled r, addToCache rt addr r s3)"
    by (simp add: verifyEmailAdvanced_def)
  show "cache (addToCache rt addr r s3) addr = Some \<lparr>result = r, timestamp = now rt (world s3)\<rparr>"
    by (simp add: addToCache_def)
next
  assume "cache s' addr = Some \<lparr>result = r, timestamp = now rt (world s3)\<rparr> \<and>
       now rt (world s') - now rt (world s3) < cacheExpiry cfg"
  then show "verifyEmailAdvanced rt cfg addr s' = (Fulfilled (r\<lparr>fromCache := True\<rparr>), s')"
    by (simp add: verifyEmailAdvanced_def getFromCache_def)
next
  assume "now rt (sleep rt ms (world s3)) - now rt (world s3) < cacheExpiry cfg"
  then show "verifyEmailAdvanced rt cfg addr (wait rt ms (addToCache rt addr r s3)) =
           (Fulfilled (r\<lparr>fromCache := True\<rparr>), wait rt ms (addToCache rt addr r s3))"
    by (simp add: verifyEmailAdvanced_def getFromCache_def wait_def addToCache_def)
next
  assume a: "getFromCache rt cfg addr s = (None, s1) \<and>
    checkRateLimit rt cfg (domainOf addr) s1 = (False, s2)"
  then have "s2 = s1" by (auto simp: checkRateLimit_def Let_def split: if_splits)
  with a show "verifyEmailAdvanced rt cfg addr s =
        (Fulfilled (mkOutcome addr False rate_limited ''Rate limit exceeded for domain'' None), s1)"
    by (simp add: verifyEmailAdvanced_def)
  from a show "cache s1 addr = None"
    by (auto simp: getFromCache_def split: option.splits if_splits)
next
  assume a: "getFromCache rt cfg addr s = (Some c, s1)"
  then show "s1 = s" by (auto simp: getFromCache_def split: option.splits if_splits)
  with a show "verifyEmailAdvanced rt cfg addr s = (Fulfilled (c\<lparr>fromCache := True\<rparr>), s)"
    by (simp add: verifyEmailAdvanced_def)
qed

lemma scripted_probe:
  "verifyEmail scriptedRuntime exampleConfig ''a@b.c'' admittedVerifier = (Fulfilled busyOutcome, probedVerifier)"
  by (simp add: verifier_defs format_defs scripted_defs session_defs admittedVerifier_def
      probedVerifier_def busyOutcome_def)

text \<open>The first verification of \<open>a@b.c\<close> on the scripted runtime ends in a temporary
  failure, which is stored; the retry 5000 ms later is served from the cache.  A sixth
  request for the domain is refused.  A stored entry is served.\<close>

theorem outcomes_are_cached_and_served_witness:
  "getFromCache scriptedRuntime exampleConfig ''a@b.c'' freshVerifier = (None, freshVerifier) \<and>
   checkRateLimit scriptedRuntime exampleConfig (domainOf ''a@b.c'') freshVerifier =
     (True, admittedVerifier) \<and>
   verifyEmail scriptedRuntime exampleConfig ''a@b.c'' admittedVerifier =
     (Fulfilled busyOutcome, probedVerifier) \<and>
   status busyOutcome = temporary_failure \<and>
   verifyEmailAdvanced scriptedRuntime exampleConfig ''a@b.c'' freshVerifier =
     (Fulfilled busyOutcome, addToCache scriptedRuntime ''a@b.c'' busyOutcome probedVerifier) \<and>
   now scriptedRuntime (sleep scriptedRuntime 5000 (world probedVerifier)) -
     now scriptedRuntime (world probedVerifier) < cacheExpiry exampleConfig \<and>
   verifyEmailAdvanced scriptedRuntime exampleConfig ''a@b.c''
       (wait scriptedRuntime 5000 (addToCache scriptedRuntime ''a@b.c'' busyOutcome probedVerifier)) =
     (Fulfilled (busyOutcome\<lparr>fromCache := True\<rparr>),
      wait scriptedRuntime 5000 (addToCache scriptedRuntime ''a@b.c'' busyOutcome probedVerifier)) \<and>
   getFromCache scriptedRuntime exampleConfig ''z@b.c'' (busyVerifier\<lparr>world := 100\<rparr>) =
     (None, busyVerifier\<lparr>world := 100\<rparr>) \<and>
   checkRateLimit scriptedRuntime exampleConfig (domainOf ''z@b.c'') (busyVerifier\<lparr>world := 100\<rparr>) =
     (False, busyVerifier\<lparr>world := 100\<rparr>) \<and>
   verifyEmailAdvanced scriptedRuntime exampleConfig ''z@b.c'' (busyVerifier\<lparr>world := 100\<rparr>) =
     (Fulfilled (mkOutcome ''z@b.c'' False rate_limited ''Rate limit exceeded for domain'' None),
      busyVerifier\<lparr>world := 100\<rparr>) \<and>
   getFromCache scriptedRuntime exampleConfig ''a@b.c'' (cachedVerifier 1000) =
     (Some busyOutcome, cachedVerifier 1000) \<and>
   verifyEmailAdvanced scriptedRuntime exampleConfig ''a@b.c'' (cachedVerifier 1000) =
     (Fulfilled (busyOutcome\<lparr>fromCache := True\<rparr>), cachedVerifier 1000)"
proof -
  let ?rt = scriptedRuntime and ?cfg = exampleConfig
  have g1: "getFromCache ?rt ?cfg ''a@b.c'' freshVerifier = (None, freshVerifier)"
    by (simp add: verifier_defs freshVerifier_def)
  have r1: "checkRateLimit ?rt ?cfg (domainOf ''a@b.c'') freshVerifier = (True, admittedVerifier)"
    by (simp add: verifier_defs format_defs scripted_defs admittedVerifier_def)
  note v1 = scripted_probe
  have st: "status busyOutcome = temporary_failure" by (simp add: busyOutcome_def mkOutcome_def)
  have ttl: "now ?rt (sleep ?rt 5000 (world probedVerifier)) - now ?rt (world probedVerifier)
      < cacheExpiry ?cfg"
    by (simp add: scripted_defs probedVerifier_def)
  have g2: "getFromCache ?rt ?cfg ''z@b.c'' (busyVerifier\<lparr>world := 100\<rparr>) =
     (None, busyVerifier\<lparr>world := 100\<rparr>)"
    by (simp add: verifier_defs busyVerifier_def freshVerifier_def)
  have r2: "checkRateLimit ?rt ?cfg (domainOf ''z@b.c'') (busyVerifier\<lparr>world := 100\<rparr>) =
     (False, busyVerifier\<lparr>world := 100\<rparr>)"
    by (simp add: verifier_defs format_defs scripted_defs busyVerifier_def)
  have g3: "getFromCache ?rt ?cfg ''a@b.c'' (cachedVerifier 1000) = (Some busyOutcome, cachedVerifier 1000)"
    by (simp add: verifier_defs cachedVerifier_def scripted_defs)
  note T1 = outcomes_are_cached_and_served
    [of ?rt ?cfg "''a@b.c''" freshVerifier freshVerifier admittedVerifier busyOutcome probedVerifier
        _ 5000]
  from T1 have "getFromCache ?rt ?cfg ''a@b.c'' freshVerifier = (None, freshVerifier) \<and>
      checkRateLimit ?rt ?cfg (domainOf ''a@b.c'') freshVerifier = (True, admittedVerifier) \<and>
      verifyEmail ?rt ?cfg ''a@b.c'' admittedVerifier = (Fulfilled busyOutcome, probedVerifier) \<longrightarrow>
      verifyEmailAdvanced ?rt ?cfg ''a@b.c'' freshVerifier =
        (Fulfilled busyOutcome, addToCache ?rt ''a@b.c'' busyOutcome probedVerifier) \<and>
      (now ?rt (sleep ?rt 5000 (world probedVerifier)) - now ?rt (world probedVerifier) < cacheExpiry ?cfg \<longrightarrow>
         verifyEmailAdvanced ?rt ?cfg ''a@b.c'' (wait ?rt 5000 (addToCache ?rt ''a@b.c'' busyOutcome probedVerifier)) =
           (Fulfilled (busyOutcome\<lparr>fromCache := True\<rparr>), wait ?rt 5000 (addToCache ?rt ''a@b.c'' busyOutcome probedVerifier)))"
    by simp
  with g1 r1 v1 ttl have a:
    "verifyEmailAdvanced ?rt ?cfg ''a@b.c'' freshVerifier =
        (Fulfilled busyOutcome, addToCache ?rt ''a@b.c'' busyOutcome probedVerifier) \<and>
     verifyEmailAdvanced ?rt ?cfg ''a@b.c'' (wait ?rt 5000 (addToCache ?rt ''a@b.c'' busyOutcome probedVerifier)) =
           (Fulfilled (busyOutcome\<lparr>fromCache := True\<rparr>), wait ?rt 5000 (addToCache ?rt ''a@b.c'' busyOutcome probedVerifier))"
    by blast
  from outcomes_are_cached_and_served
    [of ?rt ?cfg "''z@b.c''" "busyVerifier\<lparr>world := 100\<rparr>" "busyVerifier\<lparr>world := 100\<rparr>"
        "busyVerifier\<lparr>world := 100\<rparr>"] g2 r2
  have b: "verifyEmailAdvanced ?rt ?cfg ''z@b.c'' (busyVerifier\<lparr>world := 100\<rparr>) =
     (Fulfilled (mkOutcome ''z@b.c'' False rate_limited ''Rate limit exceeded for domain'' None),
      busyVerifier\<lparr>world := 100\<rparr>)"
    by blast
  from outcomes_are_cached_and_served
    [where rt = ?rt and cfg = ?cfg and addr = "''a@b.c''" and s = "cachedVerifier 1000"
       and ?s1.0 = "cachedVerifier 1000" and c = busyOutcome] g3
  have c: "verifyEmailAdvanced ?rt ?cfg ''a@b.c'' (cachedVerifier 1000) =
     (Fulfilled (busyOutcome\<lparr>fromCache := True\<rparr>), cachedVerifier 1000)"
    by blast
  from g1 r1 v1 st ttl g2 r2 g3 a b c show ?thesis by (intro conjI) (elim conjE, assumption)+
qed

section \<open>Properties of the retry\<close>

declare verifyWithRetry.simps [simp del]

lemma backoff_increasing: "sorted_wrt (<) (map (\<lambda>k. 5000 * int k) [a..<b])"
  by (simp add: sorted_wrt_map sorted_wrt_iff_nth_less)

lemma retry_run:
  assumes tv: "\<And>a s. timers (snd (v a s)) = timers s"
  shows "\<exists>ds. timers (snd (verifyWithRetry v rt n addr attempt s)) = timers s @ ds \<and>
          length ds \<le> Suc n - attempt \<and>
          (\<exists>s0. v addr s0 = verifyWithRetry v rt n addr attempt s) \<and>
          ((\<forall>s e s'. v addr s \<noteq> (Rejected e, s')) \<longrightarrow>
             ds = map (\<lambda>k. 5000 * int k) [attempt..<attempt + length ds]) \<and>
          ((\<exists>r. fst (verifyWithRetry v rt n addr attempt s) = Fulfilled r \<and>
                status r = temporary_failure) \<longrightarrow> length ds = Suc n - attempt)"
  using tv
proof (induction v rt n addr attempt s rule: verifyWithRetry.induct)
  case (1 v rt n addr attempt s)
  note tv = "1.prems"
  obtain p s1 where vs: "v addr s = (p, s1)" by (cases "v addr s")
  have t1: "timers s1 = timers s" using tv[of addr s] vs by simp
  let ?P = "\<lambda>a s ds. timers (snd (verifyWithRetry v rt n addr a s)) = timers s @ ds \<and>
          length ds \<le> Suc n - a \<and>
          (\<exists>s0. v addr s0 = verifyWithRetry v rt n addr a s) \<and>
          ((\<forall>s e s'. v addr s \<noteq> (Rejected e, s')) \<longrightarrow>
             ds = map (\<lambda>k. 5000 * int k) [a..<a + length ds]) \<and>
          ((\<exists>r. fst (verifyWithRetry v rt n addr a s) = Fulfilled r \<and>
                status r = temporary_failure) \<longrightarrow> length ds = Suc n - a)"
  show ?case
  proof (cases p)
    case (Fulfilled r)
    show ?thesis
    proof (cases "status r = temporary_failure \<and> attempt \<le> n")
      case True
      let ?s2 = "wait rt (5000 * int attempt) s1"
      have step: "verifyWithRetry v rt n addr attempt s = verifyWithRetry v rt n addr (attempt + 1) ?s2"
        using vs Fulfilled True by (subst verifyWithRetry.simps) simp
      from "1.IH"(1)[OF vs[symmetric] Fulfilled True tv]
      obtain ds where ih: "?P (attempt + 1) ?s2 ds" by blast
      have t2: "timers ?s2 = timers s @ [5000 * int attempt]" by (simp add: wait_def t1)
      have d: "(\<forall>s e s'. v addr s \<noteq> (Rejected e, s')) \<longrightarrow>
          (5000 * int attempt) # ds =
            map (\<lambda>k. 5000 * int k) [attempt..<attempt + length ((5000 * int attempt) # ds)]"
      proof
        assume "\<forall>s e s'. v addr s \<noteq> (Rejected e, s')"
        with ih have "ds = map (\<lambda>k. 5000 * int k) [attempt + 1..<attempt + 1 + length ds]" by blast
        then have "(5000 * int attempt) # ds =
            map (\<lambda>k. 5000 * int k) (attempt # [Suc attempt..<Suc attempt + length ds])" by simp
        also have "attempt # [Suc attempt..<Suc attempt + length ds] =
            [attempt..<attempt + length ((5000 * int attempt) # ds)]"
          by (simp add: upt_conv_Cons del: upt_Suc)
        finally show "(5000 * int attempt) # ds =
            map (\<lambda>k. 5000 * int k) [attempt..<attempt + length ((5000 * int attempt) # ds)]" .
      qed
      have "timers (snd (verifyWithRetry v rt n addr (attempt + 1) ?s2)) =
            timers s @ (5000 * int attempt) # ds" using ih t2 by simp
      moreover have "length ((5000 * int attempt) # ds) \<le> Suc n - attempt" using ih True by auto
      moreover have "\<exists>s0. v addr s0 = verifyWithRetry v rt n addr (attempt + 1) ?s2" using ih by blast
      moreover have "(\<exists>r. fst (verifyWithRetry v rt n addr (attempt + 1) ?s2) = Fulfilled r \<and>
                status r = temporary_failure) \<longrightarrow>
             length ((5000 * int attempt) # ds) = Suc n - attempt" using ih True by auto
      ultimately have "?P attempt s ((5000 * int attempt) # ds)"
        unfolding step using d by blast
      then show ?thesis by (rule exI[of _ "(5000 * int attempt) # ds"])
    next
      case False
      have step: "verifyWithRetry v rt n addr attempt s = (Fulfilled r, s1)"
        using vs Fulfilled False by (subst verifyWithRetry.simps) auto
      have "?P attempt s []"
        unfolding step using False t1 vs Fulfilled by auto
      then show ?thesis by (rule exI[of _ "[]"])
    qed
  next
    case (Rejected e)
    show ?thesis
    proof (cases "attempt \<le> n")
      case True
      let ?s2 = "wait rt (3000 * int attempt) s1"
      have step: "verifyWithRetry v rt n addr attempt s = verifyWithRetry v rt n addr (attempt + 1) ?s2"
        using vs Rejected True by (subst verifyWithRetry.simps) simp
      from "1.IH"(2)[OF vs[symmetric] Rejected True tv]
      obtain ds where ih: "?P (attempt + 1) ?s2 ds" by blast
      have t2: "timers ?s2 = timers s @ [3000 * int attempt]" by (simp add: wait_def t1)
      have nr: "\<not> (\<forall>s e s'. v addr s \<noteq> (Rejected e, s'))" using vs Rejected by blast
      have "?P attempt s ((3000 * int attempt) # ds)"
        unfolding step using ih True t2 nr by auto
      then show ?thesis by (rule exI[of _ "(3000 * int attempt) # ds"])
    next
      case False
      have step: "verifyWithRetry v rt n addr attempt s = (Rejected e, s1)"
        using vs Rejected False by (subst verifyWithRetry.simps) auto
      have "?P attempt s []"
        unfolding step using False t1 vs Rejected by auto
      then show ?thesis by (rule exI[of _ "[]"])
    qed
  next
    case Pending
    have step: "verifyWithRetry v rt n addr attempt s = (Pending, s1)"
      using vs Pending by (subst verifyWithRetry.simps) auto
    have "?P attempt s []"
      unfolding step using t1 vs Pending by auto
    then show ?thesis by (rule exI[of _ "[]"])
  qed
qed

lemma try_timers: "timers (snd (tryMxRecords rt cfg addr mxs s)) = timers s"
proof (induction mxs arbitrary: s)
  case Nil
  show ?case by simp
next
  case (Cons mx rest)
  obtain p s1 where v: "verifyWithMxRecord rt cfg addr (exchange mx) s = (p, s1)"
    by (cases "verifyWithMxRecord rt cfg addr (exchange mx) s")
  then have t: "timers s1 = timers s"
    by (auto simp: verifyWithMxRecord_def split: prod.splits)
  show ?case using v t Cons.IH[of s1] by (cases p) simp_all
qed

lemma try_not_rejected: "tryMxRecords rt cfg addr mxs s \<noteq> (Rejected e, s')"
proof (induction mxs arbitrary: s)
  case Nil
  show ?case by simp
next
  case (Cons mx rest)
  obtain p s1 where v: "verifyWithMxRecord rt cfg addr (exchange mx) s = (p, s1)"
    by (cases "verifyWithMxRecord rt cfg addr (exchange mx) s")
  show ?case using v Cons.IH[of s1] by (cases p) simp_all
qed

lemma verifyEmail_timers: "timers (snd (verifyEmail rt cfg addr s)) = timers s"
  by (auto simp: verifyEmail_def getMxRecords_def try_timers Let_def
      split: option.splits prod.splits sum.splits)

lemma verifyEmail_not_rejected: "verifyEmail rt cfg addr s \<noteq> (Rejected e, s')"
  by (auto simp: verifyEmail_def try_not_rejected split: option.splits prod.splits)

lemma advanced_timers: "timers (snd (verifyEmailAdvanced rt cfg addr s)) = timers s"
proof -
  obtain c s1 where g: "getFromCache rt cfg addr s = (c, s1)" by (cases "getFromCache rt cfg addr s")
  then have t1: "timers s1 = timers s" by (auto simp: getFromCache_def split: option.splits if_splits)
  obtain ok s2 where r: "checkRateLimit rt cfg (domainOf addr) s1 = (ok, s2)"
    by (cases "checkRateLimit rt cfg (domainOf addr) s1")
  then have t2: "timers s2 = timers s1" by (auto simp: checkRateLimit_def Let_def split: if_splits)
  obtain p s3 where v: "verifyEmail rt cfg addr s2 = (p, s3)" by (cases "verifyEmail rt cfg addr s2")
  then have t3: "timers s3 = timers s2" using verifyEmail_timers[of rt cfg addr s2] by simp
  show ?thesis using g r v t1 t2 t3
    by (cases c; cases ok; cases p) (simp_all add: verifyEmailAdvanced_def addToCache_def)
qed

lemma advanced_not_rejected: "verifyEmailAdvanced rt cfg addr s \<noteq> (Rejected e, s')"
proof -
  obtain c s1 where g: "getFromCache rt cfg addr s = (c, s1)" by (cases "getFromCache rt cfg addr s")
  obtain ok s2 where r: "checkRateLimit rt cfg (domainOf addr) s1 = (ok, s2)"
    by (cases "checkRateLimit rt cfg (domainOf addr) s1")
  obtain p s3 where v: "verifyEmail rt cfg addr s2 = (p, s3)" by (cases "verifyEmail rt cfg addr s2")
  have "p \<noteq> Rejected e" using v verifyEmail_not_rejected[of rt cfg addr s2] by auto
  then show ?thesis using g r v
    by (cases c; cases ok; cases p) (simp_all add: verifyEmailAdvanced_def)
qed

subsection \<open>On a settling runtime every call returns\<close>

lemma error_event: "list_ex isErrorEvent evs \<Longrightarrow> \<exists>m. EvError m \<in> set evs"
proof (induction evs)
  case Nil
  then show ?case by simp
next
  case (Cons ev evs)
  then show ?case by (cases ev) auto
qed

lemma settling_settles:
  assumes "settling evs"
  shows "promiseOf (runSession sender addr evs) \<noteq> Pending"
proof -
  let ?s = "runSession sender addr evs"
  from assms have "(\<exists>m. EvError m \<in> set evs) \<or> EvSocketTimeout \<in> set evs \<or> EvClose \<in> set evs \<or>
           (EvTimer \<in> set evs \<and> EvEnd \<notin> set evs)"
    unfolding settling_def using error_event[of evs] by blast
  from fired_run[OF this] have a: "attempts ?s \<noteq> []" .
  have "settlements ?s = take 1 (attempts ?s)" using inv_run[of sender addr evs]
    by (simp add: sessionInv_def)
  with a have "settlements ?s \<noteq> []" by (cases "attempts ?s") simp_all
  then show ?thesis by (cases "settlements ?s") (simp_all add: promiseOf_def split: settlement.splits)
qed

lemma probe_settles:
  assumes st: "settlingRuntime rt"
  shows "fst (verifyWithMxRecord rt cfg addr h s) \<noteq> Pending"
proof -
  obtain evs w' where e: "socketEvents rt h (world s) = (evs, w')"
    by (cases "socketEvents rt h (world s)")
  from st have "settling (fst (socketEvents rt h (world s)))"
    unfolding settlingRuntime_def by simp
  with e have "settling evs" by simp
  from settling_settles[OF this] e show ?thesis by (simp add: verifyWithMxRecord_def)
qed


lemma try_settles:
  assumes st: "settlingRuntime rt"
  shows "fst (tryMxRecords rt cfg addr mxs s) \<noteq> Pending"
proof (induction mxs arbitrary: s)
  case Nil
  show ?case by simp
next
  case (Cons mx rest)
  obtain p s1 where v: "verifyWithMxRecord rt cfg addr (exchange mx) s = (p, s1)"
    by (cases "verifyWithMxRecord rt cfg addr (exchange mx) s")
  with probe_settles[OF st, of cfg addr "exchange mx" s] have np: "p \<noteq> Pending" by simp
  show ?case using v np Cons.IH[of s1] by (cases p) simp_all
qed

lemma verifyEmail_settles:
  assumes st: "settlingRuntime rt"
  shows "fst (verifyEmail rt cfg addr s) \<noteq> Pending"
proof (cases "isValidEmailFormat addr")
  case False
  then show ?thesis by (simp add: verifyEmail_def)
next
  case True
  obtain m s1 where g: "getMxRecords rt (domainOf addr) s = (m, s1)"
    by (cases "getMxRecords rt (domainOf addr) s")
  show ?thesis
  proof (cases m)
    case None
    with True g show ?thesis by (simp add: verifyEmail_def)
  next
    case (Some mxs)
    with True g try_settles[OF st, of cfg addr mxs s1] show ?thesis
      by (simp add: verifyEmail_def)
  qed
qed

lemma advanced_settles:
  assumes st: "settlingRuntime rt"
  shows "fst (verifyEmailAdvanced rt cfg addr s) \<noteq> Pending"
proof -
  obtain c s1 where g: "getFromCache rt cfg addr s = (c, s1)" by (cases "getFromCache rt cfg addr s")
  obtain ok s2 where r: "checkRateLimit rt cfg (domainOf addr) s1 = (ok, s2)"
    by (cases "checkRateLimit rt cfg (domainOf addr) s1")
  obtain p s3 where v: "verifyEmail rt cfg addr s2 = (p, s3)" by (cases "verifyEmail rt cfg addr s2")
  have "p \<noteq> Pending" using v verifyEmail_settles[OF st, of cfg addr s2] by simp
  then show ?thesis using g r v
    by (cases c; cases ok; cases p) (simp_all add: verifyEmailAdvanced_def)
qed


lemma retry_settles:
  "\<forall>a s. fst (v a s) \<noteq> Pending \<Longrightarrow> fst (verifyWithRetry v rt n addr attempt s) \<noteq> Pending"
proof (induction v rt n addr attempt s rule: verifyWithRetry.induct)
  case (1 v rt n addr attempt s)
  note np = "1.prems"
  obtain p s1 where vs: "v addr s = (p, s1)" by (cases "v addr s")
  from np have "fst (v addr s) \<noteq> Pending" by simp
  with vs have pp: "p \<noteq> Pending" by simp
  show ?case
  proof (cases p)
    case (Fulfilled r)
    show ?thesis
    proof (cases "status r = temporary_failure \<and> attempt \<le> n")
      case True
      from "1.IH"(1)[OF vs[symmetric] Fulfilled True np]
      show ?thesis using vs Fulfilled True by (subst verifyWithRetry.simps) simp
    next
      case False
      then show ?thesis using vs Fulfilled by (subst verifyWithRetry.simps) auto
    qed
  next
    case (Rejected e)
    show ?thesis
    proof (cases "attempt \<le> n")
      case True
      from "1.IH"(2)[OF vs[symmetric] Rejected True np]
      show ?thesis using vs Rejected True by (subst verifyWithRetry.simps) simp
    next
      case False
      then show ?thesis using vs Rejected by (subst verifyWithRetry.simps) auto
    qed
  next
    case Pending
    with pp show ?thesis by simp
  qed
qed


lemma retrying_pending: "settlingRuntime rt \<Longrightarrow> fst (retryingVerifier rt cfg addr s) \<noteq> Pending"
  unfolding retryingVerifier_def by (rule retry_settles) (simp add: advanced_settles)

lemma retrying_rejected: "fst (retryingVerifier rt cfg addr s) \<noteq> Rejected e"
proof -
  let ?res = "retryingVerifier rt cfg addr s"
  from retry_run[of "verifyEmailAdvanced rt cfg" rt "retryAttempts cfg" addr 1 s, OF advanced_timers]
  obtain s0 where s0: "verifyEmailAdvanced rt cfg addr s0 = ?res"
    unfolding retryingVerifier_def by (elim exE conjE)
  show ?thesis
  proof
    assume "fst ?res = Rejected e"
    then have "?res = (Rejected e, snd ?res)" by (simp add: prod_eq_iff)
    with s0 have "verifyEmailAdvanced rt cfg addr s0 = (Rejected e, snd ?res)" by simp
    with advanced_not_rejected[of rt cfg addr s0 e "snd ?res"] show False by simp
  qed
qed

lemma retrying_settles:
  assumes st: "settlingRuntime rt"
  shows "\<exists>r s'. retryingVerifier rt cfg addr s = (Fulfilled r, s')"
proof -
  let ?res = "retryingVerifier rt cfg addr s"
  have "\<exists>r. fst ?res = Fulfilled r"
  proof (cases "fst ?res")
    case (Fulfilled r)
    then show ?thesis by simp
  next
    case (Rejected e)
    with retrying_rejected[of rt cfg addr s e] show ?thesis by simp
  next
    case Pending
    with retrying_pending[OF st, of cfg addr s] show ?thesis by simp
  qed
  then obtain r where "fst ?res = Fulfilled r" by (elim exE)
  then have "?res = (Fulfilled r, snd ?res)" by (simp add: prod_eq_iff)
  then show ?thesis by (intro exI)
qed

lemma scripted_settling: "settlingRuntime scriptedRuntime"
  by (simp add: settlingRuntime_def settling_def scriptedRuntime_def acceptingServer_def)

subsection \<open>The calls of the verifier, and a retry served by the cache\<close>

lemma retry_calls:
  assumes tv: "\<And>a s. timers (snd (v a s)) = timers s"
    and cv: "\<And>a s. c (snd (v a s)) = Suc (c s)"
    and cw: "\<And>ms s. c (wait rt ms s) = c s"
  shows "c (snd (verifyWithRetry v rt n addr attempt s)) + length (timers s) =
         Suc (c s) + length (timers (snd (verifyWithRetry v rt n addr attempt s)))"
  using tv cv cw
proof (induction v rt n addr attempt s rule: verifyWithRetry.induct)
  case (1 v rt n addr attempt s)
  note tv = "1.prems"(1) and cv = "1.prems"(2) and cw = "1.prems"(3)
  obtain p s1 where vs: "v addr s = (p, s1)" by (cases "v addr s")
  have t1: "timers s1 = timers s" using tv[of addr s] vs by simp
  have c1: "c s1 = Suc (c s)" using cv[of addr s] vs by simp
  show ?case
  proof (cases p)
    case (Fulfilled r)
    show ?thesis
    proof (cases "status r = temporary_failure \<and> attempt \<le> n")
      case True
      let ?s2 = "wait rt (5000 * int attempt) s1"
      have step: "verifyWithRetry v rt n addr attempt s = verifyWithRetry v rt n addr (attempt + 1) ?s2"
        using vs Fulfilled True by (subst verifyWithRetry.simps) simp
      have t2: "length (timers ?s2) = Suc (length (timers s))" by (simp add: wait_def t1)
      have c2: "c ?s2 = Suc (c s)" using cw c1 by simp
      from "1.IH"(1)[OF vs[symmetric] Fulfilled True tv cv cw]
      show ?thesis unfolding step t2 c2 by simp
    next
      case False
      have step: "verifyWithRetry v rt n addr attempt s = (Fulfilled r, s1)"
        using vs Fulfilled False by (subst verifyWithRetry.simps) auto
      show ?thesis unfolding step using t1 c1 by simp
    qed
  next
    case (Rejected e)
    show ?thesis
    proof (cases "attempt \<le> n")
      case True
      let ?s2 = "wait rt (3000 * int attempt) s1"
      have step: "verifyWithRetry v rt n addr attempt s = verifyWithRetry v rt n addr (attempt + 1) ?s2"
        using vs Rejected True by (subst verifyWithRetry.simps) simp
      have t2: "length (timers ?s2) = Suc (length (timers s))" by (simp add: wait_def t1)
      have c2: "c ?s2 = Suc (c s)" using cw c1 by simp
      from "1.IH"(2)[OF vs[symmetric] Rejected True tv cv cw]
      show ?thesis unfolding step t2 c2 by simp
    next
      case False
      have step: "verifyWithRetry v rt n addr attempt s = (Rejected e, s1)"
        using vs Rejected False by (subst verifyWithRetry.simps) auto
      show ?thesis unfolding step using t1 c1 by simp
    qed
  next
    case Pending
    have step: "verifyWithRetry v rt n addr attempt s = (Pending, s1)"
      using vs Pending by (subst verifyWithRetry.simps) auto
    show ?thesis unfolding step using t1 c1 by simp
  qed
qed

lemma advanced_hit:
  "cache t addr = Some e \<Longrightarrow> now rt (world t) - timestamp e < cacheExpiry cfg \<Longrightarrow>
   verifyEmailAdvanced rt cfg addr t = (Fulfilled ((result e)\<lparr>fromCache := True\<rparr>), t)"
  by (simp add: verifyEmailAdvanced_def getFromCache_def)

lemma advanced_stores:
  assumes run: "verifyEmailAdvanced rt cfg addr s = (Fulfilled r, s1)"
    and st: "status r \<noteq> rate_limited"
  shows "\<exists>e. cache s1 addr = Some e \<and> (result e)\<lparr>fromCache := True\<rparr> = r\<lparr>fromCache := True\<rparr>"
proof -
  obtain c s0 where g: "getFromCache rt cfg addr s = (c, s0)" by (cases "getFromCache rt cfg addr s")
  show ?thesis
  proof (cases c)
    case (Some cached)
    with g have "cache s addr \<noteq> None" "s0 = s"
      by (auto simp: getFromCache_def split: option.splits if_splits)
    moreover from g Some have "\<exists>e. cache s addr = Some e \<and> result e = cached"
      by (auto simp: getFromCache_def split: option.splits if_splits)
    moreover from run g Some have "r = cached\<lparr>fromCache := True\<rparr>" "s1 = s0"
      by (simp_all add: verifyEmailAdvanced_def)
    ultimately show ?thesis by auto
  next
    case None
    obtain ok s2 where rl: "checkRateLimit rt cfg (domainOf addr) s0 = (ok, s2)"
      by (cases "checkRateLimit rt cfg (domainOf addr) s0")
    show ?thesis
    proof (cases ok)
      case False
      with run g None rl have "r = mkOutcome addr False rate_limited ''Rate limit exceeded for domain'' None"
        by (simp add: verifyEmailAdvanced_def)
      with st show ?thesis by (simp add: mkOutcome_def)
    next
      case True
      obtain p s3 where v: "verifyEmail rt cfg addr s2 = (p, s3)" by (cases "verifyEmail rt cfg addr s2")
      from run g None rl True v have "p = Fulfilled r" "s1 = addToCache rt addr r s3"
        by (cases p; simp add: verifyEmailAdvanced_def)+
      then show ?thesis by (simp add: addToCache_def)
    qed
  qed
qed

lemma backoffs_cache: "cache (backoffs rt a k s) = cache s"
proof -
  have "\<And>s. cache (foldl (\<lambda>s i. wait rt (5000 * int i) s) s xs) = cache s" for xs :: "nat list"
    by (induction xs) (simp_all add: wait_def)
  then show ?thesis by (simp add: backoffs_def)
qed

lemma backoffs_step: "a \<le> k \<Longrightarrow> backoffs rt a k s = backoffs rt (Suc a) k (wait rt (5000 * int a) s)"
  by (simp add: backoffs_def upt_conv_Cons del: upt_Suc)

lemma backoffs_none: "k < a \<Longrightarrow> backoffs rt a k s = s"
  by (simp add: backoffs_def)

lemma cached_retry:
  "cache t addr = Some e \<Longrightarrow> status (result e) = temporary_failure \<Longrightarrow>
   now rt (world t) - timestamp e < cacheExpiry cfg \<Longrightarrow>
   (\<forall>k. a \<le> k \<and> k \<le> n \<longrightarrow>
      now rt (world (backoffs rt a k t)) - timestamp e < cacheExpiry cfg) \<Longrightarrow>
   verifyWithRetry (verifyEmailAdvanced rt cfg) rt n addr a t =
     (Fulfilled ((result e)\<lparr>fromCache := True\<rparr>), backoffs rt a n t)"
proof (induction "Suc n - a" arbitrary: a t)
  case 0
  then have gt: "n < a" by simp
  from advanced_hit[OF "0.prems"(1) "0.prems"(3)]
  have "verifyWithRetry (verifyEmailAdvanced rt cfg) rt n addr a t =
      (Fulfilled ((result e)\<lparr>fromCache := True\<rparr>), t)"
    using gt by (subst verifyWithRetry.simps) simp
  then show ?case using gt by (simp add: backoffs_none)
next
  case (Suc d)
  then have le: "a \<le> n" by simp
  let ?t2 = "wait rt (5000 * int a) t"
  have step: "verifyWithRetry (verifyEmailAdvanced rt cfg) rt n addr a t =
      verifyWithRetry (verifyEmailAdvanced rt cfg) rt n addr (a + 1) ?t2"
    using advanced_hit[OF Suc.prems(1) Suc.prems(3)] le Suc.prems(2)
    by (subst verifyWithRetry.simps) simp
  have c2: "cache ?t2 addr = Some e" using Suc.prems(1) by (simp add: wait_def)
  have one: "backoffs rt a a t = ?t2" by (simp add: backoffs_def)
  have f2: "now rt (world ?t2) - timestamp e < cacheExpiry cfg"
    using Suc.prems(4)[rule_format, of a] le one by simp
  have all2: "\<forall>k. a + 1 \<le> k \<and> k \<le> n \<longrightarrow>
      now rt (world (backoffs rt (a + 1) k ?t2)) - timestamp e < cacheExpiry cfg"
  proof (intro allI impI)
    fix k assume k: "a + 1 \<le> k \<and> k \<le> n"
    then have "backoffs rt a k t = backoffs rt (a + 1) k ?t2" by (simp add: backoffs_step)
    with Suc.prems(4)[rule_format, of k] k show
      "now rt (world (backoffs rt (a + 1) k ?t2)) - timestamp e < cacheExpiry cfg" by simp
  qed
  have d: "d = Suc n - (a + 1)" using Suc.hyps(2) by simp
  from Suc.hyps(1)[OF d c2 Suc.prems(2) f2 all2]
  show ?case unfolding step using le by (simp add: backoffs_step)
qed

lemma cached_program:
  assumes first: "verifyEmailAdvanced rt cfg addr s = (Fulfilled r, s1)"
    and st: "status r = temporary_failure"
    and fresh: "\<forall>k. 1 \<le> k \<and> k \<le> retryAttempts cfg \<longrightarrow>
      now rt (world (backoffs rt 1 k s1)) - timestamp (the (cache s1 addr)) < cacheExpiry cfg"
  shows "retryingVerifier rt cfg addr s =
     (Fulfilled (if retryAttempts cfg = 0 then r else r\<lparr>fromCache := True\<rparr>),
      backoffs rt 1 (retryAttempts cfg) s1)"
proof (cases "retryAttempts cfg = 0")
  case True
  then show ?thesis
    unfolding retryingVerifier_def using first st
    by (subst verifyWithRetry.simps) (simp add: backoffs_none)
next
  case False
  let ?n = "retryAttempts cfg"
  let ?t = "wait rt (5000 * int 1) s1"
  from st have "status r \<noteq> rate_limited" by simp
  from advanced_stores[OF first this] obtain e where
    e: "cache s1 addr = Some e" and re: "(result e)\<lparr>fromCache := True\<rparr> = r\<lparr>fromCache := True\<rparr>"
    by blast
  from re have "status ((result e)\<lparr>fromCache := True\<rparr>) = status (r\<lparr>fromCache := True\<rparr>)" by simp
  with st have se: "status (result e) = temporary_failure" by simp
  have step: "retryingVerifier rt cfg addr s =
      verifyWithRetry (verifyEmailAdvanced rt cfg) rt ?n addr (1 + 1) ?t"
    unfolding retryingVerifier_def using first st False
    by (subst verifyWithRetry.simps) simp
  have c2: "cache ?t addr = Some e" using e by (simp add: wait_def)
  have one: "backoffs rt 1 1 s1 = ?t" by (simp add: backoffs_def)
  have f2: "now rt (world ?t) - timestamp e < cacheExpiry cfg"
    using fresh[rule_format, of 1] False e one by simp
  have all2: "\<forall>k. 1 + 1 \<le> k \<and> k \<le> ?n \<longrightarrow>
      now rt (world (backoffs rt (1 + 1) k ?t)) - timestamp e < cacheExpiry cfg"
  proof (intro allI impI)
    fix k assume k: "1 + 1 \<le> k \<and> k \<le> ?n"
    then have "backoffs rt 1 k s1 = backoffs rt (1 + 1) k ?t" by (simp add: backoffs_step)
    with fresh[rule_format, of k] k e show
      "now rt (world (backoffs rt (1 + 1) k ?t)) - timestamp e < cacheExpiry cfg" by simp
  qed
  have "backoffs rt 1 ?n s1 = backoffs rt (1 + 1) ?n ?t" using False by (simp add: backoffs_step)
  with cached_retry[OF c2 se f2 all2] re False show ?thesis unfolding step by simp
qed

lemma backoffs_timers:
  "timers (backoffs rt a k s) = timers s @ map (\<lambda>i. 5000 * int i) [a..<Suc k]"
proof -
  have "\<And>s. timers (foldl (\<lambda>s i. wait rt (5000 * int i) s) s xs) =
          timers s @ map (\<lambda>i. 5000 * int i) xs" for xs :: "nat list"
    by (induction xs) (simp_all add: wait_def)
  then show ?thesis by (simp add: backoffs_def)
qed

text \<open>
  Claim C7.  For any verifier \<open>v\<close> that leaves the log of delays alone, a call of
  \<^verbatim>\<open>verifyWithRetry\<close> from attempt 1 waits for at most \<open>n\<close> delays, and what it returns
  is what the last call of \<open>v\<close> returned, unaltered.  Whatever a call of \<open>v\<close> counts up
  and a delay leaves alone has gone up by the number of delays and one: \<open>v\<close> is called
  once and then once after every delay, at most \<open>n\<close> times again.  When no call of \<open>v\<close>
  throws, the delays are 5000, 10000 and so on, strictly increasing.  A temporary failure
  is returned only after all \<open>n\<close> retries, and when \<open>v\<close> answers the address with a
  temporary failure every time, the result after the \<open>n\<close> retries is that temporary
  failure.  The verifier of the program, \<^verbatim>\<open>verifyEmailAdvanced\<close>, leaves the log alone and
  never throws: with it the delays are strictly increasing and at most
  \<open>retryAttempts\<close>, and the retrying call is never rejected; on a settling runtime it
  returns an outcome.  When the program's first attempt ends in a temporary failure and the
  cache entry of the address stays within its time to live through the backoff delays,
  every retry ends in that temporary failure, all \<open>retryAttempts\<close> delays are waited
  for, and the outcome reported at the end is that temporary failure.
\<close>

theorem retry_budget_and_backoff:
  "((\<forall>a s. timers (snd (v a s)) = timers s) \<longrightarrow>
     (\<exists>ds. timers (snd (verifyWithRetry v rt n addr 1 s)) = timers s @ ds \<and> length ds \<le> n \<and>
        (\<exists>s0. v addr s0 = verifyWithRetry v rt n addr 1 s) \<and>
        ((\<forall>s e s'. v addr s \<noteq> (Rejected e, s')) \<longrightarrow>
           ds = map (\<lambda>k. 5000 * int k) [1..<Suc (length ds)] \<and> sorted_wrt (<) ds) \<and>
        ((\<exists>r. fst (verifyWithRetry v rt n addr 1 s) = Fulfilled r \<and> status r = temporary_failure) \<longrightarrow>
           length ds = n) \<and>
        ((\<forall>s. \<exists>r s'. v addr s = (Fulfilled r, s') \<and> status r = temporary_failure) \<longrightarrow>
           length ds = n \<and>
           (\<exists>r. fst (verifyWithRetry v rt n addr 1 s) = Fulfilled r \<and> status r = temporary_failure)) \<and>
        (\<forall>c. (\<forall>a s. c (snd (v a s)) = Suc (c s)) \<and> (\<forall>ms s. c (wait rt ms s) = c s) \<longrightarrow>
           c (snd (verifyWithRetry v rt n addr 1 s)) = c s + Suc (length ds)))) \<and>
   (\<exists>ds. timers (snd (retryingVerifier rt' cfg addr s')) = timers s' @ ds \<and>
      length ds \<le> retryAttempts cfg \<and>
      ds = map (\<lambda>k. 5000 * int k) [1..<Suc (length ds)] \<and> sorted_wrt (<) ds \<and>
      ((\<exists>r. fst (retryingVerifier rt' cfg addr s') = Fulfilled r \<and> status r = temporary_failure) \<longrightarrow>
         length ds = retryAttempts cfg) \<and>
      (\<forall>e s''. retryingVerifier rt' cfg addr s' \<noteq> (Rejected e, s''))) \<and>
   (settlingRuntime rt' \<longrightarrow> (\<exists>r s''. retryingVerifier rt' cfg addr s' = (Fulfilled r, s''))) \<and>
   (verifyEmailAdvanced rt' cfg addr s' = (Fulfilled r1, s1) \<and> status r1 = temporary_failure \<and>
    (\<forall>k. 1 \<le> k \<and> k \<le> retryAttempts cfg \<longrightarrow>
       now rt' (world (backoffs rt' 1 k s1)) - timestamp (the (cache s1 addr)) < cacheExpiry cfg) \<longrightarrow>
      retryingVerifier rt' cfg addr s' =
        (Fulfilled (if retryAttempts cfg = 0 then r1 else r1\<lparr>fromCache := True\<rparr>),
         backoffs rt' 1 (retryAttempts cfg) s1) \<and>
      status (if retryAttempts cfg = 0 then r1 else r1\<lparr>fromCache := True\<rparr>) = temporary_failure \<and>
      timers (backoffs rt' 1 (retryAttempts cfg) s1) =
        timers s' @ map (\<lambda>k. 5000 * int k) [1..<Suc (retryAttempts cfg)])"
proof (intro conjI impI)
  assume tv: "\<forall>a s. timers (snd (v a s)) = timers s"
  let ?res = "verifyWithRetry v rt n addr 1 s"
  have "\<exists>ds. timers (snd ?res) = timers s @ ds \<and>
          length ds \<le> Suc n - 1 \<and>
          (\<exists>s0. v addr s0 = ?res) \<and>
          ((\<forall>s e s'. v addr s \<noteq> (Rejected e, s')) \<longrightarrow>
             ds = map (\<lambda>k. 5000 * int k) [1..<1 + length ds]) \<and>
          ((\<exists>r. fst ?res = Fulfilled r \<and> status r = temporary_failure) \<longrightarrow> length ds = Suc n - 1)"
    by (rule retry_run) (rule tv[rule_format])
  then obtain ds where P: "timers (snd ?res) = timers s @ ds \<and>
          length ds \<le> Suc n - 1 \<and>
          (\<exists>s0. v addr s0 = ?res) \<and>
          ((\<forall>s e s'. v addr s \<noteq> (Rejected e, s')) \<longrightarrow>
             ds = map (\<lambda>k. 5000 * int k) [1..<1 + length ds]) \<and>
          ((\<exists>r. fst ?res = Fulfilled r \<and> status r = temporary_failure) \<longrightarrow> length ds = Suc n - 1)" ..
  from P have t: "timers (snd ?res) = timers s @ ds" by (rule conjunct1)
  from P have l: "length ds \<le> n" by simp
  from P have o: "\<exists>s0. v addr s0 = ?res" by (rule conjunct2[THEN conjunct2, THEN conjunct1])
  from P have d: "(\<forall>s e s'. v addr s \<noteq> (Rejected e, s')) \<longrightarrow>
             ds = map (\<lambda>k. 5000 * int k) [1..<1 + length ds]"
    by (rule conjunct2[THEN conjunct2, THEN conjunct2, THEN conjunct1])
  from P have "(\<exists>r. fst ?res = Fulfilled r \<and> status r = temporary_failure) \<longrightarrow> length ds = Suc n - 1"
    by (rule conjunct2[THEN conjunct2, THEN conjunct2, THEN conjunct2])
  then have x: "(\<exists>r. fst ?res = Fulfilled r \<and> status r = temporary_failure) \<longrightarrow> length ds = n"
    by simp
  have d': "(\<forall>s e s'. v addr s \<noteq> (Rejected e, s')) \<longrightarrow>
           ds = map (\<lambda>k. 5000 * int k) [1..<Suc (length ds)] \<and> sorted_wrt (<) ds"
  proof
    assume "\<forall>s e s'. v addr s \<noteq> (Rejected e, s')"
    with d have e: "ds = map (\<lambda>k. 5000 * int k) [1..<Suc (length ds)]" by simp
    have "sorted_wrt (<) (map (\<lambda>k. 5000 * int k) [1..<Suc (length ds)])" by (rule backoff_increasing)
    with e show "ds = map (\<lambda>k. 5000 * int k) [1..<Suc (length ds)] \<and> sorted_wrt (<) ds" by simp
  qed
  have y: "(\<forall>s. \<exists>r s'. v addr s = (Fulfilled r, s') \<and> status r = temporary_failure) \<longrightarrow>
           length ds = n \<and> (\<exists>r. fst ?res = Fulfilled r \<and> status r = temporary_failure)"
  proof
    assume a: "\<forall>s. \<exists>r s'. v addr s = (Fulfilled r, s') \<and> status r = temporary_failure"
    from o obtain s0 where s0: "v addr s0 = ?res" ..
    from a obtain r s1 where vr: "v addr s0 = (Fulfilled r, s1)" and st: "status r = temporary_failure"
      by blast
    have "fst ?res = Fulfilled r" unfolding s0[symmetric] vr by simp
    with st have ex: "\<exists>r. fst ?res = Fulfilled r \<and> status r = temporary_failure" by blast
    with x show "length ds = n \<and> (\<exists>r. fst ?res = Fulfilled r \<and> status r = temporary_failure)"
      by (intro conjI) (rule mp, assumption+)
  qed
  have z: "\<forall>c. (\<forall>a s. c (snd (v a s)) = Suc (c s)) \<and> (\<forall>ms s. c (wait rt ms s) = c s) \<longrightarrow>
           c (snd ?res) = c s + Suc (length ds)"
  proof (intro allI impI)
    fix c
    assume h: "(\<forall>a s. c (snd (v a s)) = Suc (c s)) \<and> (\<forall>ms s. c (wait rt ms s) = c s)"
    have "c (snd ?res) + length (timers s) = Suc (c s) + length (timers (snd ?res))"
      by (rule retry_calls) (simp_all add: tv[rule_format] h)
    then show "c (snd ?res) = c s + Suc (length ds)" unfolding t by simp
  qed
  from t l o d' x y z
  show "\<exists>ds. timers (snd ?res) = timers s @ ds \<and> length ds \<le> n \<and>
        (\<exists>s0. v addr s0 = ?res) \<and>
        ((\<forall>s e s'. v addr s \<noteq> (Rejected e, s')) \<longrightarrow>
           ds = map (\<lambda>k. 5000 * int k) [1..<Suc (length ds)] \<and> sorted_wrt (<) ds) \<and>
        ((\<exists>r. fst ?res = Fulfilled r \<and> status r = temporary_failure) \<longrightarrow> length ds = n) \<and>
        ((\<forall>s. \<exists>r s'. v addr s = (Fulfilled r, s') \<and> status r = temporary_failure) \<longrightarrow>
           length ds = n \<and> (\<exists>r. fst ?res = Fulfilled r \<and> status r = temporary_failure)) \<and>
        (\<forall>c. (\<forall>a s. c (snd (v a s)) = Suc (c s)) \<and> (\<forall>ms s. c (wait rt ms s) = c s) \<longrightarrow>
           c (snd ?res) = c s + Suc (length ds))"
    by (intro exI[of _ ds] conjI)
next
  let ?v = "verifyEmailAdvanced rt' cfg"
  let ?res = "retryingVerifier rt' cfg addr s'"
  let ?run = "verifyWithRetry ?v rt' (retryAttempts cfg) addr 1 s'"
  have res: "?res = ?run" by (simp add: retryingVerifier_def)
  have "\<exists>ds. timers (snd ?run) = timers s' @ ds \<and>
          length ds \<le> Suc (retryAttempts cfg) - 1 \<and>
          (\<exists>s0. ?v addr s0 = ?run) \<and>
          ((\<forall>s e s'. ?v addr s \<noteq> (Rejected e, s')) \<longrightarrow>
             ds = map (\<lambda>k. 5000 * int k) [1..<1 + length ds]) \<and>
          ((\<exists>r. fst ?run = Fulfilled r \<and> status r = temporary_failure) \<longrightarrow>
             length ds = Suc (retryAttempts cfg) - 1)"
    by (rule retry_run) (rule advanced_timers)
  then obtain ds where P: "timers (snd ?run) = timers s' @ ds \<and>
          length ds \<le> Suc (retryAttempts cfg) - 1 \<and>
          (\<exists>s0. ?v addr s0 = ?run) \<and>
          ((\<forall>s e s'. ?v addr s \<noteq> (Rejected e, s')) \<longrightarrow>
             ds = map (\<lambda>k. 5000 * int k) [1..<1 + length ds]) \<and>
          ((\<exists>r. fst ?run = Fulfilled r \<and> status r = temporary_failure) \<longrightarrow>
             length ds = Suc (retryAttempts cfg) - 1)" ..
  from P have t: "timers (snd ?res) = timers s' @ ds" unfolding res by (rule conjunct1)
  from P have l: "length ds \<le> retryAttempts cfg" by simp
  from P have o: "\<exists>s0. ?v addr s0 = ?run" by (rule conjunct2[THEN conjunct2, THEN conjunct1])
  from P have "(\<forall>s e s'. ?v addr s \<noteq> (Rejected e, s')) \<longrightarrow>
             ds = map (\<lambda>k. 5000 * int k) [1..<1 + length ds]"
    by (rule conjunct2[THEN conjunct2, THEN conjunct2, THEN conjunct1])
  then have e: "ds = map (\<lambda>k. 5000 * int k) [1..<Suc (length ds)]"
    using advanced_not_rejected[of rt' cfg addr] by simp
  from P have "(\<exists>r. fst ?run = Fulfilled r \<and> status r = temporary_failure) \<longrightarrow>
             length ds = Suc (retryAttempts cfg) - 1"
    by (rule conjunct2[THEN conjunct2, THEN conjunct2, THEN conjunct2])
  then have x: "(\<exists>r. fst ?res = Fulfilled r \<and> status r = temporary_failure) \<longrightarrow>
             length ds = retryAttempts cfg"
    unfolding res by simp
  have "sorted_wrt (<) (map (\<lambda>k. 5000 * int k) [1..<Suc (length ds)])" by (rule backoff_increasing)
  with e have srt: "sorted_wrt (<) ds" by simp
  from o obtain s0 where s0: "?v addr s0 = ?run" ..
  have nr: "\<forall>e s''. ?res \<noteq> (Rejected e, s'')"
    unfolding res s0[symmetric] by (intro allI advanced_not_rejected)
  from t l e srt x nr
  show "\<exists>ds. timers (snd ?res) = timers s' @ ds \<and>
      length ds \<le> retryAttempts cfg \<and>
      ds = map (\<lambda>k. 5000 * int k) [1..<Suc (length ds)] \<and> sorted_wrt (<) ds \<and>
      ((\<exists>r. fst ?res = Fulfilled r \<and> status r = temporary_failure) \<longrightarrow>
         length ds = retryAttempts cfg) \<and>
      (\<forall>e s''. ?res \<noteq> (Rejected e, s''))"
    by (intro exI[of _ ds] conjI)
next
  assume "settlingRuntime rt'"
  then show "\<exists>r s''. retryingVerifier rt' cfg addr s' = (Fulfilled r, s'')"
    by (rule retrying_settles)
next
  assume h: "verifyEmailAdvanced rt' cfg addr s' = (Fulfilled r1, s1) \<and> status r1 = temporary_failure \<and>
    (\<forall>k. 1 \<le> k \<and> k \<le> retryAttempts cfg \<longrightarrow>
       now rt' (world (backoffs rt' 1 k s1)) - timestamp (the (cache s1 addr)) < cacheExpiry cfg)"
  then have first: "verifyEmailAdvanced rt' cfg addr s' = (Fulfilled r1, s1)"
    and st: "status r1 = temporary_failure"
    and fresh: "\<forall>k. 1 \<le> k \<and> k \<le> retryAttempts cfg \<longrightarrow>
       now rt' (world (backoffs rt' 1 k s1)) - timestamp (the (cache s1 addr)) < cacheExpiry cfg"
    by simp_all
  show "retryingVerifier rt' cfg addr s' =
        (Fulfilled (if retryAttempts cfg = 0 then r1 else r1\<lparr>fromCache := True\<rparr>),
         backoffs rt' 1 (retryAttempts cfg) s1)"
    using first st fresh by (rule cached_program)
  show "status (if retryAttempts cfg = 0 then r1 else r1\<lparr>fromCache := True\<rparr>) = temporary_failure"
    using st by simp
  have "timers s1 = timers s'" using advanced_timers[of rt' cfg addr s'] first by simp
  then show "timers (backoffs rt' 1 (retryAttempts cfg) s1) =
        timers s' @ map (\<lambda>k. 5000 * int k) [1..<Suc (retryAttempts cfg)]"
    by (simp add: backoffs_timers)
qed

lemma scripted_retry:
  "retryingVerifier scriptedRuntime exampleConfig ''a@b.c'' freshVerifier =
     (Fulfilled (busyOutcome\<lparr>fromCache := True\<rparr>), retriedVerifier)"
  by (simp add: retryingVerifier_def verifyWithRetry.simps verifier_defs format_defs scripted_defs
      session_defs busyOutcome_def retriedVerifier_def)

lemma scripted_first_attempt:
  "verifyEmailAdvanced scriptedRuntime exampleConfig ''a@b.c'' freshVerifier =
     (Fulfilled busyOutcome, addToCache scriptedRuntime ''a@b.c'' busyOutcome probedVerifier)"
  by (simp add: verifier_defs format_defs scripted_defs session_defs busyOutcome_def
      probedVerifier_def admittedVerifier_def)

lemma scripted_second_attempt:
  "verifyEmailAdvanced scriptedRuntime exampleConfig ''a@b.c''
       (wait scriptedRuntime 5000 (addToCache scriptedRuntime ''a@b.c'' busyOutcome probedVerifier)) =
     (Fulfilled (busyOutcome\<lparr>fromCache := True\<rparr>),
      wait scriptedRuntime 5000 (addToCache scriptedRuntime ''a@b.c'' busyOutcome probedVerifier))"
  by (simp add: verifier_defs scripted_defs probedVerifier_def admittedVerifier_def)

text \<open>A verifier that always answers with a temporary failure and logs its calls, with two
  retries: three calls, two delays.  And the program on the scripted runtime, where the
  host answers 450: the first attempt stores the temporary failure at time 220, the
  entry is 5000 ms and 15000 ms old after the delays, and the run ends in it.\<close>

theorem retry_budget_and_backoff_witness:
  "(\<forall>a s. timers (snd (alwaysBusy a s)) = timers s) \<and>
   (\<forall>s e s'. alwaysBusy ''a@b.c'' s \<noteq> (Rejected e, s')) \<and>
   (\<forall>s. \<exists>r s'. alwaysBusy ''a@b.c'' s = (Fulfilled r, s') \<and> status r = temporary_failure) \<and>
   (\<forall>a s. length (accesses (snd (alwaysBusy a s))) = Suc (length (accesses s))) \<and>
   (\<forall>ms s. length (accesses (wait scriptedRuntime ms s)) = length (accesses s)) \<and>
   timers (snd (verifyWithRetry alwaysBusy scriptedRuntime 2 ''a@b.c'' 1 freshVerifier)) =
     [5000, 10000] \<and>
   sorted_wrt (<) [5000, 10000 :: int] \<and>
   length (accesses (snd (verifyWithRetry alwaysBusy scriptedRuntime 2 ''a@b.c'' 1 freshVerifier))) = 3 \<and>
   (\<exists>r. fst (verifyWithRetry alwaysBusy scriptedRuntime 2 ''a@b.c'' 1 freshVerifier) = Fulfilled r \<and>
        status r = temporary_failure) \<and>
   fst (retryingVerifier scriptedRuntime exampleConfig ''a@b.c'' freshVerifier) =
     Fulfilled (busyOutcome\<lparr>fromCache := True\<rparr>) \<and>
   status (busyOutcome\<lparr>fromCache := True\<rparr>) = temporary_failure \<and>
   retryAttempts exampleConfig = 2 \<and>
   timers (snd (retryingVerifier scriptedRuntime exampleConfig ''a@b.c'' freshVerifier)) =
     [5000, 10000] \<and>
   settlingRuntime scriptedRuntime \<and>
   (\<exists>r s''. retryingVerifier scriptedRuntime exampleConfig ''a@b.c'' freshVerifier = (Fulfilled r, s'')) \<and>
   verifyEmailAdvanced scriptedRuntime exampleConfig ''a@b.c'' freshVerifier =
     (Fulfilled busyOutcome, addToCache scriptedRuntime ''a@b.c'' busyOutcome probedVerifier) \<and>
   status busyOutcome = temporary_failure \<and>
   now scriptedRuntime (world (backoffs scriptedRuntime 1 1
       (addToCache scriptedRuntime ''a@b.c'' busyOutcome probedVerifier))) -
     timestamp (the (cache (addToCache scriptedRuntime ''a@b.c'' busyOutcome probedVerifier) ''a@b.c''))
     = 5000 \<and>
   now scriptedRuntime (world (backoffs scriptedRuntime 1 2
       (addToCache scriptedRuntime ''a@b.c'' busyOutcome probedVerifier))) -
     timestamp (the (cache (addToCache scriptedRuntime ''a@b.c'' busyOutcome probedVerifier) ''a@b.c''))
     = 15000 \<and>
   cacheExpiry exampleConfig = 3600000 \<and>
   retryingVerifier scriptedRuntime exampleConfig ''a@b.c'' freshVerifier =
     (Fulfilled (busyOutcome\<lparr>fromCache := True\<rparr>),
      backoffs scriptedRuntime 1 2 (addToCache scriptedRuntime ''a@b.c'' busyOutcome probedVerifier))"
proof -
  let ?run = "verifyWithRetry alwaysBusy scriptedRuntime 2 ''a@b.c'' 1 freshVerifier"
  let ?prog = "retryingVerifier scriptedRuntime exampleConfig ''a@b.c'' freshVerifier"
  let ?s1 = "addToCache scriptedRuntime ''a@b.c'' busyOutcome probedVerifier"
  have h1: "\<forall>a s. timers (snd (alwaysBusy a s)) = timers s" by (simp add: alwaysBusy_def)
  have h2: "\<forall>s e s'. alwaysBusy ''a@b.c'' s \<noteq> (Rejected e, s')" by (simp add: alwaysBusy_def)
  have h3: "\<forall>s. \<exists>r s'. alwaysBusy ''a@b.c'' s = (Fulfilled r, s') \<and> status r = temporary_failure"
    by (simp add: alwaysBusy_def mkOutcome_def)
  have hc1: "\<forall>a s. length (accesses (snd (alwaysBusy a s))) = Suc (length (accesses s))"
    by (simp add: alwaysBusy_def)
  have hc2: "\<forall>ms s. length (accesses (wait scriptedRuntime ms s)) = length (accesses s)"
    by (simp add: wait_def)
  have f: "timers freshVerifier = []" "accesses freshVerifier = []" by (simp_all add: freshVerifier_def)
  have m: "map (\<lambda>k. 5000 * int k) [1..<Suc 2] = [5000, 10000]" by (simp add: upt_conv_Cons)
  note T = retry_budget_and_backoff
    [where v = alwaysBusy and rt = scriptedRuntime and n = 2 and addr = "''a@b.c''"
       and s = freshVerifier and rt' = scriptedRuntime and cfg = exampleConfig and s' = freshVerifier
       and ?r1.0 = busyOutcome and ?s1.0 = ?s1]
  note T1 = T[THEN conjunct1, THEN mp, OF h1]
  from T1 obtain ds where t: "timers (snd ?run) = timers freshVerifier @ ds"
    and d: "(\<forall>s e s'. alwaysBusy ''a@b.c'' s \<noteq> (Rejected e, s')) \<longrightarrow>
           ds = map (\<lambda>k. 5000 * int k) [1..<Suc (length ds)] \<and> sorted_wrt (<) ds"
    and y: "(\<forall>s. \<exists>r s'. alwaysBusy ''a@b.c'' s = (Fulfilled r, s') \<and> status r = temporary_failure) \<longrightarrow>
           length ds = 2 \<and> (\<exists>r. fst ?run = Fulfilled r \<and> status r = temporary_failure)"
    and z: "\<forall>c. (\<forall>a s. c (snd (alwaysBusy a s)) = Suc (c s)) \<and>
                (\<forall>ms s. c (wait scriptedRuntime ms s) = c s) \<longrightarrow>
                c (snd ?run) = c freshVerifier + Suc (length ds)"
    by (elim exE conjE)
  from y h3 have l: "length ds = 2" and r: "\<exists>r. fst ?run = Fulfilled r \<and> status r = temporary_failure"
    by simp_all
  from d h2 have "ds = map (\<lambda>k. 5000 * int k) [1..<Suc (length ds)]" and srt: "sorted_wrt (<) ds"
    by simp_all
  then have ds: "ds = [5000, 10000]" unfolding l m by simp
  have a: "timers (snd ?run) = [5000, 10000]" using t ds f by simp
  have b: "sorted_wrt (<) [5000, 10000 :: int]" using srt ds by simp
  have "length (accesses (snd ?run)) = length (accesses freshVerifier) + Suc (length ds)"
    using z[rule_format, of "\<lambda>s. length (accesses s)"] hc1 hc2 by simp
  then have calls: "length (accesses (snd ?run)) = 3" unfolding l f by simp
  have p: "?prog = (Fulfilled (busyOutcome\<lparr>fromCache := True\<rparr>), retriedVerifier)"
    by (rule scripted_retry)
  have c: "fst ?prog = Fulfilled (busyOutcome\<lparr>fromCache := True\<rparr>)" unfolding p by simp
  have c2: "status (busyOutcome\<lparr>fromCache := True\<rparr>) = temporary_failure"
    by (simp add: busyOutcome_def mkOutcome_def)
  have c3: "retryAttempts exampleConfig = 2" by (simp add: exampleConfig_def)
  have e: "timers (snd ?prog) = [5000, 10000]" unfolding p by (simp add: retriedVerifier_def)
  note h4 = scripted_settling
  from T have "settlingRuntime scriptedRuntime \<longrightarrow> (\<exists>r s''. ?prog = (Fulfilled r, s''))"
    by (rule conjunct2[THEN conjunct2, THEN conjunct1])
  from this h4 have g: "\<exists>r s''. ?prog = (Fulfilled r, s'')" by (rule mp)
  note k1 = scripted_first_attempt
  have k2: "status busyOutcome = temporary_failure" by (simp add: busyOutcome_def mkOutcome_def)
  have k3: "now scriptedRuntime (world (backoffs scriptedRuntime 1 1 ?s1)) -
      timestamp (the (cache ?s1 ''a@b.c'')) = 5000"
    by (simp add: backoffs_def wait_def addToCache_def scriptedRuntime_def probedVerifier_def
        admittedVerifier_def freshVerifier_def)
  have k4: "now scriptedRuntime (world (backoffs scriptedRuntime 1 2 ?s1)) -
      timestamp (the (cache ?s1 ''a@b.c'')) = 15000"
    by (simp add: backoffs_def wait_def addToCache_def scriptedRuntime_def probedVerifier_def
        admittedVerifier_def freshVerifier_def upt_conv_Cons)
  have k5: "cacheExpiry exampleConfig = 3600000" by (simp add: exampleConfig_def)
  have fresh: "\<forall>k. 1 \<le> k \<and> k \<le> retryAttempts exampleConfig \<longrightarrow>
       now scriptedRuntime (world (backoffs scriptedRuntime 1 k ?s1)) -
         timestamp (the (cache ?s1 ''a@b.c'')) < cacheExpiry exampleConfig"
  proof (intro allI impI)
    fix k :: nat
    assume "1 \<le> k \<and> k \<le> retryAttempts exampleConfig"
    then have "k = 1 \<or> k = 2" unfolding c3 by arith
    then show "now scriptedRuntime (world (backoffs scriptedRuntime 1 k ?s1)) -
         timestamp (the (cache ?s1 ''a@b.c'')) < cacheExpiry exampleConfig"
      using k3 k4 k5 by (elim disjE) simp_all
  qed
  have pre: "verifyEmailAdvanced scriptedRuntime exampleConfig ''a@b.c'' freshVerifier =
      (Fulfilled busyOutcome, ?s1) \<and> status busyOutcome = temporary_failure \<and>
    (\<forall>k. 1 \<le> k \<and> k \<le> retryAttempts exampleConfig \<longrightarrow>
       now scriptedRuntime (world (backoffs scriptedRuntime 1 k ?s1)) -
         timestamp (the (cache ?s1 ''a@b.c'')) < cacheExpiry exampleConfig)"
    using k1 k2 fresh by (intro conjI)
  note T4 = T[THEN conjunct2, THEN conjunct2, THEN conjunct2, THEN mp, OF pre]
  from T4 have "?prog =
        (Fulfilled (if retryAttempts exampleConfig = 0 then busyOutcome
                    else busyOutcome\<lparr>fromCache := True\<rparr>),
         backoffs scriptedRuntime 1 (retryAttempts exampleConfig) ?s1)"
    by (rule conjunct1)
  then have k6: "?prog = (Fulfilled (busyOutcome\<lparr>fromCache := True\<rparr>), backoffs scriptedRuntime 1 2 ?s1)"
    unfolding c3 by simp
  from h1 h2 h3 hc1 hc2 a b calls r c c2 c3 e h4 g k1 k2 k3 k4 k5 k6 show ?thesis by (intro conjI)
qed

text \<open>
  Claim C4, at a failing input.  The first attempt for \<open>a@b.c\<close> misses the cache, is
  admitted, probes the hosts and ends in a temporary failure, which it stores.  The retry
  calls \<^verbatim>\<open>verifyEmailAdvanced\<close> again, 5000 ms later: that call reads the cache first,
  finds the entry, and returns it with \<open>fromCache\<close> set, without asking the rate limiter
  and without any access.  So does the second retry.  The run ends with one lookup, two
  connections and one recorded request, and its result is a cache hit.
\<close>

theorem retry_attempt_is_cache_hit:
  "verifyEmailAdvanced scriptedRuntime exampleConfig ''a@b.c'' freshVerifier =
     (Fulfilled busyOutcome, addToCache scriptedRuntime ''a@b.c'' busyOutcome probedVerifier) \<and>
   status busyOutcome = temporary_failure \<and> \<not> fromCache busyOutcome \<and>
   1 \<le> retryAttempts exampleConfig \<and>
   verifyEmailAdvanced scriptedRuntime exampleConfig ''a@b.c''
       (wait scriptedRuntime 5000 (addToCache scriptedRuntime ''a@b.c'' busyOutcome probedVerifier)) =
     (Fulfilled (busyOutcome\<lparr>fromCache := True\<rparr>),
      wait scriptedRuntime 5000 (addToCache scriptedRuntime ''a@b.c'' busyOutcome probedVerifier)) \<and>
   retryingVerifier scriptedRuntime exampleConfig ''a@b.c'' freshVerifier =
     (Fulfilled (busyOutcome\<lparr>fromCache := True\<rparr>), retriedVerifier) \<and>
   accesses retriedVerifier = [DnsLookup ''b.c'', Connect ''mx1.b.c'', Connect ''mx2.b.c''] \<and>
   rateLimiter retriedVerifier (Some ''b.c'') = Some [0] \<and>
   timers retriedVerifier = [5000, 10000]"
  using scripted_first_attempt scripted_second_attempt scripted_retry
  by (simp add: busyOutcome_def mkOutcome_def exampleConfig_def retriedVerifier_def)

section \<open>Properties of the scheduler\<close>

declare verifyWithRetryAsync.simps [simp del]
declare eventLoop.simps [simp del]

subsection \<open>Calls in progress\<close>







subsection \<open>The members of a group\<close>


lemma waiting_mem:
  "i \<in> set (filter (\<lambda>i. isSuspended (ms ! i)) [0..<length ms]) \<Longrightarrow> i < length ms \<and> isSuspended (ms ! i)"
  by simp

lemma loop_done:
  "filter (\<lambda>i. isSuspended (ms ! i)) [0..<length ms] = [] \<Longrightarrow> eventLoop pick ms s = (ms, s)"
  by (subst eventLoop.simps) simp

lemma loop_step:
  "waiting = filter (\<lambda>i. isSuspended (ms ! i)) [0..<length ms] \<Longrightarrow> waiting \<noteq> [] \<Longrightarrow>
   i = waiting ! (pick s ms mod length waiting) \<Longrightarrow> ms ! i = Suspended u k \<Longrightarrow>
   eventLoop pick ms s = eventLoop pick (ms[i := k s]) (u s)"
  by (subst eventLoop.simps) (simp add: Let_def)




subsection \<open>The loop over the groups of a batch\<close>











subsection \<open>The loop over the batches\<close>













subsection \<open>Every outcome carries its address\<close>

lemma for_resolve: "resolvesFor addr s \<Longrightarrow> email r = addr \<Longrightarrow> resolvesFor addr (resolveOnce r s)"
  by (auto simp: resolvesFor_def resolveOnce_def Let_def cleanup_def)

lemma for_reject: "resolvesFor addr s \<Longrightarrow> resolvesFor addr (rejectOnce e s)"
  by (auto simp: resolvesFor_def rejectOnce_def Let_def cleanup_def)

lemma for_send: "resolvesFor addr s \<Longrightarrow> resolvesFor addr (sendCommand c s)"
  by (simp add: resolvesFor_def sendCommand_def)

lemma for_handle:
  "resolvesFor addr s \<Longrightarrow> resolvesFor addr (handleSmtpResponse sender line addr stp s)"
  by (cases stp)
     (simp_all add: handleSmtpResponse_def Let_def for_resolve for_send mkOutcome_def)

lemma for_line: "resolvesFor addr s \<Longrightarrow> resolvesFor addr (processLine sender addr s line)"
  using for_handle[of addr s sender line "step s"]
  by (simp add: processLine_def Let_def resolvesFor_def)

lemma for_lines:
  "resolvesFor addr s \<Longrightarrow> resolvesFor addr (foldl (processLine sender addr) s ls)"
  by (induction ls arbitrary: s) (simp_all add: for_line)

lemma for_data: "resolvesFor addr s \<Longrightarrow> resolvesFor addr (onData sender addr chunk s)"
  unfolding onData_def Let_def by (rule for_lines) (simp add: resolvesFor_def)

lemma for_field:
  "resolvesFor addr s \<Longrightarrow> resolvesFor addr (s\<lparr>destroyed := b\<rparr>)"
  "resolvesFor addr s \<Longrightarrow> resolvesFor addr (s\<lparr>timerArmed := b\<rparr>)"
  by (simp_all add: resolvesFor_def)

lemma for_event: "resolvesFor addr s \<Longrightarrow> resolvesFor addr (onEvent sender addr s ev)"
  by (cases ev) (simp_all add: onEvent_def Let_def for_data for_reject for_field)

lemma for_run: "resolvesFor addr (runSession sender addr evs)"
proof -
  have "resolvesFor addr s \<Longrightarrow> resolvesFor addr (foldl (onEvent sender addr) s evs)" for s
    by (induction evs arbitrary: s) (simp_all add: for_event)
  moreover have "resolvesFor addr newSession" by (simp add: resolvesFor_def newSession_def)
  ultimately show ?thesis unfolding runSession_def by blast
qed

lemma session_email:
  assumes "promiseOf (runSession sender addr evs) = Fulfilled r"
  shows "email r = addr"
proof -
  let ?s = "runSession sender addr evs"
  from assms obtain rest where st: "settlements ?s = Resolve r # rest"
    by (auto simp: promiseOf_def split: list.splits settlement.splits)
  have "settlements ?s = take 1 (attempts ?s)" using inv_run[of sender addr evs]
    by (simp add: sessionInv_def)
  with st have "Resolve r \<in> set (attempts ?s)" by (metis in_set_takeD list.set_intros(1))
  with for_run[of addr sender evs] show ?thesis by (simp add: resolvesFor_def)
qed

lemma probe_email:
  "verifyWithMxRecord rt cfg addr h s = (p, s1) \<Longrightarrow>
   cache s1 = cache s \<and> (\<forall>r. p = Fulfilled r \<longrightarrow> email r = addr)"
  by (auto simp: verifyWithMxRecord_def session_email split: prod.splits)



subsection \<open>The members of the program\<close>



lemma probe_cache: "cache (snd (verifyWithMxRecord rt cfg addr h s)) = cache s"
  by (cases "verifyWithMxRecord rt cfg addr h s") (simp add: probe_email)





subsection \<open>A single call in the loop is the call run by itself\<close>

lemma loop_alone: "eventLoop pick [m] s = ([Settled (fst (runAlone m s))], snd (runAlone m s))"
proof (induction m arbitrary: s)
  case (Settled p)
  show ?case by (simp add: loop_done)
next
  case (Suspended u k)
  have "eventLoop pick [Suspended u k] s = eventLoop pick ([Suspended u k][0 := k s]) (u s)"
    by (rule loop_step[where waiting = "[0]"]) simp_all
  then show ?case using Suspended[of "k s" "u s"] by simp
qed

lemma runAlone_thenP:
  "runAlone (thenP m g) s =
     (case runAlone m s of
        (Pending, s1) \<Rightarrow> (Pending, s1)
      | (x, s1) \<Rightarrow> alone (g x) s1)"
proof (induction m arbitrary: s)
  case (Settled x)
  show ?case by (cases x) (simp_all add: alone_def split: prod.splits)
next
  case (Suspended u k)
  from Suspended[of "k s" "u s"] show ?case by simp
qed

lemma alone_awaitThen:
  "alone (awaitThen m g) s =
     (case alone m s of
        (Pending, s1) \<Rightarrow> (Pending, s1)
      | (x, s1) \<Rightarrow> alone (g x) s1)"
  by (cases "m s") (simp add: alone_def awaitThen_def runAlone_thenP)

lemma alone_settled: "alone (settled p) s = (p, s)"
  by (simp add: alone_def settled_def)

lemma alone_completes: "alone (completes t) s = t s"
  by (simp add: alone_def completes_def)

lemma alone_try: "alone (tryMxRecordsAsync rt cfg addr mxs) s = tryMxRecords rt cfg addr mxs s"
proof (induction mxs arbitrary: s)
  case Nil
  show ?case by (simp add: alone_settled)
next
  case (Cons mx rest)
  obtain p s1 where v: "verifyWithMxRecord rt cfg addr (exchange mx) s = (p, s1)"
    by (cases "verifyWithMxRecord rt cfg addr (exchange mx) s")
  show ?case using v Cons.IH[of s1]
    by (cases p) (simp_all add: alone_awaitThen alone_completes alone_settled)
qed

lemma alone_verifyEmail: "alone (verifyEmailAsync rt cfg addr) s = verifyEmail rt cfg addr s"
proof (cases "isValidEmailFormat addr")
  case False
  then show ?thesis by (simp add: verifyEmailAsync_def verifyEmail_def alone_settled)
next
  case True
  obtain m s1 where g: "getMxRecords rt (domainOf addr) s = (m, s1)"
    by (cases "getMxRecords rt (domainOf addr) s")
  show ?thesis
  proof (cases m)
    case None
    with True g show ?thesis
      by (simp add: verifyEmailAsync_def verifyEmail_def alone_awaitThen alone_completes alone_settled)
  next
    case (Some mxs)
    with True g show ?thesis
      by (simp add: verifyEmailAsync_def verifyEmail_def alone_awaitThen alone_completes
          alone_settled alone_try)
  qed
qed

lemma alone_advanced:
  "alone (verifyEmailAdvancedAsync rt cfg addr) s = verifyEmailAdvanced rt cfg addr s"
proof -
  obtain c s1 where g: "getFromCache rt cfg addr s = (c, s1)" by (cases "getFromCache rt cfg addr s")
  obtain ok s2 where r: "checkRateLimit rt cfg (domainOf addr) s1 = (ok, s2)"
    by (cases "checkRateLimit rt cfg (domainOf addr) s1")
  obtain p s3 where v: "verifyEmail rt cfg addr s2 = (p, s3)" by (cases "verifyEmail rt cfg addr s2")
  let ?rest = "\<lambda>p s3. case p of
                    Fulfilled r \<Rightarrow> settled (Fulfilled r) (addToCache rt addr r s3)
                  | Rejected e \<Rightarrow> settled (Rejected e) s3
                  | Pending \<Rightarrow> settled Pending s3"
  have rest: "alone (awaitThen (verifyEmailAsync rt cfg addr) ?rest) s2 =
      (case p of Fulfilled r \<Rightarrow> (Fulfilled r, addToCache rt addr r s3)
               | Rejected e \<Rightarrow> (Rejected e, s3) | Pending \<Rightarrow> (Pending, s3))"
    using v by (cases p) (simp_all add: alone_awaitThen alone_verifyEmail, simp_all add: alone_def settled_def)
  have "alone (verifyEmailAdvancedAsync rt cfg addr) s =
      (case c of
         Some cached \<Rightarrow> (Fulfilled (cached\<lparr>fromCache := True\<rparr>), s1)
       | None \<Rightarrow>
           if ok then alone (awaitThen (verifyEmailAsync rt cfg addr) ?rest) s2
           else (Fulfilled (mkOutcome addr False rate_limited
                  ''Rate limit exceeded for domain'' None), s2))"
    using g r
    by (cases c; cases ok) (simp_all add: alone_def verifyEmailAdvancedAsync_def settled_def)
  then show ?thesis
    unfolding rest using g r v
    by (cases c; cases ok; cases p) (simp_all add: verifyEmailAdvanced_def)
qed

lemma alone_timeout: "alone (timeout rt ms) s = (Fulfilled (), wait rt ms s)"
  by (simp add: timeout_def alone_completes)

lemma alone_retry:
  assumes va: "\<And>a s. alone (va a) s = v a s"
  shows "alone (verifyWithRetryAsync va rt n addr attempt) s = verifyWithRetry v rt n addr attempt s"
  using va
proof (induction v rt n addr attempt s rule: verifyWithRetry.induct)
  case (1 v rt n addr attempt s)
  note va = "1.prems"
  obtain p s1 where vs: "v addr s = (p, s1)" by (cases "v addr s")
  then have as: "alone (va addr) s = (p, s1)" by (simp add: va)
  show ?case
  proof (cases p)
    case (Fulfilled r)
    show ?thesis
    proof (cases "status r = temporary_failure \<and> attempt \<le> n")
      case True
      from "1.IH"(1)[OF vs[symmetric] Fulfilled True va]
      show ?thesis
        using vs as Fulfilled True
        by (subst verifyWithRetryAsync.simps, subst verifyWithRetry.simps)
           (simp add: alone_awaitThen alone_timeout)
    next
      case False
      then show ?thesis
        using vs as Fulfilled
        by (subst verifyWithRetryAsync.simps, subst verifyWithRetry.simps)
           (auto simp: alone_awaitThen alone_settled)
    qed
  next
    case (Rejected e)
    show ?thesis
    proof (cases "attempt \<le> n")
      case True
      from "1.IH"(2)[OF vs[symmetric] Rejected True va]
      show ?thesis
        using vs as Rejected True
        by (subst verifyWithRetryAsync.simps, subst verifyWithRetry.simps)
           (simp add: alone_awaitThen alone_timeout)
    next
      case False
      then show ?thesis
        using vs as Rejected
        by (subst verifyWithRetryAsync.simps, subst verifyWithRetry.simps)
           (auto simp: alone_awaitThen alone_settled)
    qed
  next
    case Pending
    then show ?thesis
      using vs as
      by (subst verifyWithRetryAsync.simps, subst verifyWithRetry.simps)
         (simp add: alone_awaitThen)
  qed
qed

text \<open>
  A group of one address: the member has the loop to itself, and what
  \<^verbatim>\<open>Promise.allSettled\<close> gives for it is what \<^verbatim>\<open>verifyWithRetry\<close> gives when nothing is
  interleaved with it.
\<close>

lemma single_member_is_sequential:
  "allSettled (\<lambda>addr. verifyWithRetryAsync (verifyEmailAdvancedAsync rt cfg) rt (retryAttempts cfg) addr 1)
      pick [addr] s =
     (case retryingVerifier rt cfg addr s of
        (Pending, s') \<Rightarrow> (None, s')
      | (p, s') \<Rightarrow> (Some [p], s'))"
proof -
  let ?f = "\<lambda>addr. verifyWithRetryAsync (verifyEmailAdvancedAsync rt cfg) rt (retryAttempts cfg) addr 1"
  have a: "alone (?f addr) s = retryingVerifier rt cfg addr s"
    unfolding retryingVerifier_def by (rule alone_retry) (rule alone_advanced)
  obtain m s1 where f: "?f addr s = (m, s1)" by (cases "?f addr s")
  obtain p s2 where r: "runAlone m s1 = (p, s2)" by (cases "runAlone m s1")
  from a f r have seq: "retryingVerifier rt cfg addr s = (p, s2)" by (simp add: alone_def)
  have "allSettled ?f pick [addr] s = (if p = Pending then (None, s2) else (Some [p], s2))"
    using f r by (simp add: allSettled_def loop_alone)
  then show ?thesis unfolding seq by (cases p) simp_all
qed

subsection \<open>The results match the input\<close>






subsection \<open>Examples\<close>










end
